theory Spec2Isabelle
  imports Complex_Main "HOL-Library.AList"
begin

section \<open>The graph engine of CGraph.cpp\<close>

text \<open>
  The development embeds \<^verbatim>\<open>src/src/CGraph.cpp\<close>: the constructor with its input check
  \<^verbatim>\<open>CheckInput_DistMat\<close>, the label translation, \<^verbatim>\<open>InternalDijkstra\<close>,
  \<^verbatim>\<open>InternalShortestDistance\<close> and the public \<^verbatim>\<open>ShortestDistance\<close>.

  Conventions of the embedding.
  \<^item> A \<^verbatim>\<open>double\<close> is the real number it stands for; comparisons are exact. The one
    arithmetic operation of the program, the sum of two distances in the relaxation step,
    is \<open>dadd\<close>: the exact sum rounded to 53 significant bits, ties to even (IEEE 754
    binary64 in its default rounding mode). The exponent range is not bounded: overflow,
    subnormal numbers, infinities and NaN are outside the model.
  \<^item> \<^verbatim>\<open>unsigned int\<close> values are natural numbers; the value \<^verbatim>\<open>(unsigned int)-1\<close> is
    written \<open>UINT_MAX\<close>, and the two subtractions that can wrap are written out.
  \<^item> A read or write through \<^verbatim>\<open>operator[]\<close> of a vector outside its range is undefined
    behaviour in C++; the model stops there with the error \<open>UndefinedBehaviour\<close>. A failed
    \<^verbatim>\<open>.at()\<close> throws \<^verbatim>\<open>std::out_of_range\<close>, the error \<open>std_out_of_range\<close>.
  \<^item> A thrown exception is the \<open>Inl\<close> side of a sum; the two \<^verbatim>\<open>while\<close> loops whose
    termination is not evident from the text are \<open>partial_function\<close>s into \<open>option\<close>, where
    \<open>None\<close> stands for a loop that never ends.
  \<^item> The header \<^verbatim>\<open>CGraph.h\<close> is not part of the sources at hand. The enumeration
    \<open>CGraph_DistMatCheckResult\<close>, the exception names and the member variables are taken
    from their uses in \<^verbatim>\<open>CGraph.cpp\<close>.
\<close>

subsection \<open>Errors, checked vector access\<close>

datatype error =
    InputDistMat_MatrixTooLarge
  | InputDistMat_NotSquareMatrix
  | InputDistMat_InvalidElements
  | InternalException
  | InputVertexLabels_BadSize
  | InputVertexLabels_RepeatedLabel
  | Dijkstra_InvalidStartVertex
  | std_out_of_range
  | UndefinedBehaviour

definition UINT_MAX :: nat where
  "UINT_MAX = 4294967295"

text \<open>\<^verbatim>\<open>v[i]\<close> on a \<^verbatim>\<open>std::vector\<close>.\<close>

definition vget :: "'a list \<Rightarrow> nat \<Rightarrow> error + 'a" where
  "vget xs i = (if i < length xs then Inr (xs ! i) else Inl UndefinedBehaviour)"

text \<open>\<^verbatim>\<open>m[i][j]\<close> on a vector of vectors: the row is read first.\<close>

definition vget2 :: "'a list list \<Rightarrow> nat \<Rightarrow> nat \<Rightarrow> error + 'a" where
  "vget2 m i j = (case vget m i of Inl e \<Rightarrow> Inl e | Inr row \<Rightarrow> vget row j)"

text \<open>\<^verbatim>\<open>v.at(i)\<close> on a \<^verbatim>\<open>std::vector\<close>.\<close>

definition vat :: "'a list \<Rightarrow> nat \<Rightarrow> error + 'a" where
  "vat xs i = (if i < length xs then Inr (xs ! i) else Inl std_out_of_range)"

text \<open>Running a list of fallible steps in order: the first failure is the result.\<close>

fun sequenceE :: "(error + 'a) list \<Rightarrow> error + 'a list" where
  "sequenceE [] = Inr []"
| "sequenceE (x # xs) =
     (case x of
        Inl e \<Rightarrow> Inl e
      | Inr v \<Rightarrow> (case sequenceE xs of Inl e \<Rightarrow> Inl e | Inr vs \<Rightarrow> Inr (v # vs)))"

text \<open>
  The nested loops \<^verbatim>\<open>for i < n: for j < n: m[i][j] = f(i, j)\<close> over a matrix allocated
  with \<open>n\<close> rows of \<open>n\<close> cells: every cell is assigned, in row-major order, and the first
  failing \<open>f i j\<close> ends the run.
\<close>

definition fill_matrix :: "nat \<Rightarrow> (nat \<Rightarrow> nat \<Rightarrow> error + 'a) \<Rightarrow> error + 'a list list" where
  "fill_matrix n f = sequenceE (map (\<lambda>i. sequenceE (map (f i) [0..<n])) [0..<n])"

subsection \<open>Addition of doubles\<close>

text \<open>
  Rounding a real number to the nearest integer, a tie going to the even one; rounding a
  real number to 53 significant bits, where \<open>e\<close> is the exponent of the last of the 53
  bits; and the sum of two doubles.
\<close>

definition ties_to_even :: "real \<Rightarrow> int" where
  "ties_to_even r =
     (let f = \<lfloor>r\<rfloor> in
      if r - of_int f < 1 / 2 then f
      else if r - of_int f > 1 / 2 then f + 1
      else if even f then f else f + 1)"

definition round53 :: "real \<Rightarrow> real" where
  "round53 x =
     (if x = 0 then 0
      else let e = \<lfloor>log 2 \<bar>x\<bar>\<rfloor> - 52
           in of_int (ties_to_even (x / 2 powi e)) * 2 powi e)"

definition dadd :: "real \<Rightarrow> real \<Rightarrow> real" where
  "dadd x y = round53 (x + y)"

subsection \<open>CheckInput\_DistMat\<close>

datatype CGraph_DistMatCheckResult =
    undefined_shape
  | square
  | lowerTriangular
  | upperTriangular
  | tooLarge
  | badShape
  | invalidElements

text \<open>\<^verbatim>\<open>distanceMatrix[i].size() == k\<close>.\<close>

definition row_size_is :: "real list list \<Rightarrow> nat \<Rightarrow> nat \<Rightarrow> error + bool" where
  "row_size_is dm i k = (case vget dm i of Inl e \<Rightarrow> Inl e | Inr row \<Rightarrow> Inr (length row = k))"

text \<open>\<^verbatim>\<open>a && b\<close>: \<open>b\<close> is evaluated only when \<open>a\<close> is true.\<close>

definition and_then :: "error + bool \<Rightarrow> error + bool \<Rightarrow> error + bool" where
  "and_then a b = (case a of Inl e \<Rightarrow> Inl e | Inr False \<Rightarrow> Inr False | Inr True \<Rightarrow> b)"

text \<open>
  Lines 444 to 452: the shape is guessed from rows 0 and 1. \<^verbatim>\<open>m_Order - 1\<close> is unsigned
  32-bit arithmetic.
\<close>

definition guess_shape :: "nat \<Rightarrow> real list list \<Rightarrow> error + CGraph_DistMatCheckResult" where
  "guess_shape order dm =
     (case and_then (row_size_is dm 0 order) (row_size_is dm 1 order) of
        Inl e \<Rightarrow> Inl e
      | Inr True \<Rightarrow> Inr square
      | Inr False \<Rightarrow>
     (case and_then (row_size_is dm 0 1) (row_size_is dm 1 2) of
        Inl e \<Rightarrow> Inl e
      | Inr True \<Rightarrow> Inr lowerTriangular
      | Inr False \<Rightarrow>
     (case and_then (row_size_is dm 0 order)
                    (row_size_is dm 1 ((order + 2 ^ 32 - 1) mod 2 ^ 32)) of
        Inl e \<Rightarrow> Inl e
      | Inr True \<Rightarrow> Inr upperTriangular
      | Inr False \<Rightarrow> Inr badShape)))"

text \<open>
  Lines 455 to 469: the loop over the rows; \<open>Some r\<close> is \<^verbatim>\<open>return r\<close> from inside the loop,
  \<open>None\<close> is the loop running to its end. \<^verbatim>\<open>distanceMatrix[i-1].size() - 1\<close> is
  \<^verbatim>\<open>size_t\<close> arithmetic (64 bits).
\<close>

fun check_rows ::
  "CGraph_DistMatCheckResult \<Rightarrow> nat \<Rightarrow> real list list \<Rightarrow> nat list
     \<Rightarrow> error + CGraph_DistMatCheckResult option" where
  "check_rows matrixShape order dm [] = Inr None"
| "check_rows matrixShape order dm (i # rest) =
     (case vget dm i of
        Inl e \<Rightarrow> Inl e
      | Inr row \<Rightarrow>
          if length row > UINT_MAX then Inr (Some tooLarge)
          else if matrixShape = square \<and> length row \<noteq> order then Inr (Some badShape)
          else if matrixShape = lowerTriangular \<and> i > 0
                  \<and> length row \<noteq> length (dm ! (i - 1)) + 1 then Inr (Some badShape)
          else if matrixShape = upperTriangular \<and> i > 0
                  \<and> length row \<noteq> (length (dm ! (i - 1)) + 2 ^ 64 - 1) mod 2 ^ 64
               then Inr (Some badShape)
          else check_rows matrixShape order dm rest)"

text \<open>Lines 474 to 481: some entry of the first \<open>order\<close> rows is negative and not \<open>-1\<close>.\<close>

definition has_invalid_element :: "nat \<Rightarrow> real list list \<Rightarrow> bool" where
  "has_invalid_element order dm =
     list_ex (\<lambda>row. list_ex (\<lambda>x. x < 0 \<and> x \<noteq> - 1) row) (take order dm)"

definition CheckInput_DistMat :: "nat \<Rightarrow> real list list \<Rightarrow> error + CGraph_DistMatCheckResult" where
  "CheckInput_DistMat order dm =
     (if length dm > UINT_MAX then Inr tooLarge
      else
        case guess_shape order dm of
          Inl e \<Rightarrow> Inl e
        | Inr badShape \<Rightarrow> Inr badShape
        | Inr matrixShape \<Rightarrow>
            (case check_rows matrixShape order dm [0..<order] of
               Inl e \<Rightarrow> Inl e
             | Inr (Some r) \<Rightarrow> Inr r
             | Inr None \<Rightarrow>
                 if matrixShape = undefined_shape then Inl InternalException
                 else if has_invalid_element order dm then Inr invalidElements
                 else Inr matrixShape))"

subsection \<open>The graph and its constructor\<close>

text \<open>
  The member variables. The two \<^verbatim>\<open>std::map\<close>s are association lists with one entry per
  key (\<open>AList.update\<close> replaces or appends), so that \<^verbatim>\<open>size()\<close> is the length.
  The cache is the three \<open>m_Dijkstra\<close> fields: slot \<open>k\<close> of the two vectors belongs to
  the start vertex that \<open>m_DijkstraStartVertices\<close> sends to \<open>k\<close>.
\<close>

record CGraph =
  m_Order :: nat
  m_InternalToExternal :: "nat list"
  m_ExternalToInternal :: "(nat \<times> nat) list"
  m_DistanceMatrix :: "real list list"
  m_AdjacencyMatrix :: "bool list list"
  m_DijkstraStartVertices :: "(nat \<times> nat) list"
  m_DijkstraOutputRoutes :: "nat list list"
  m_DijkstraShortestDistances :: "real list list"

text \<open>Lines 55 to 65: the square matrix filled from a lower-triangular input.\<close>

definition fill_lower :: "nat \<Rightarrow> real list list \<Rightarrow> error + real list list" where
  "fill_lower order dm =
     fill_matrix order (\<lambda>i j. if i < j then vget2 dm j i else vget2 dm i j)"

text \<open>Lines 68 to 78: the same from an upper-triangular input.\<close>

definition fill_upper :: "nat \<Rightarrow> real list list \<Rightarrow> error + real list list" where
  "fill_upper order dm =
     fill_matrix order (\<lambda>i j. if i > j then vget2 dm j i else vget2 dm i j)"

text \<open>Lines 88 and 89: \<^verbatim>\<open>m_ExternalToInternal[vertexLabels[i]] = i\<close> for every \<open>i\<close>.\<close>

definition store_labels :: "nat list \<Rightarrow> (nat \<times> nat) list" where
  "store_labels vertexLabels =
     fold (\<lambda>i m. AList.update (vertexLabels ! i) i m) [0..<length vertexLabels] []"

text \<open>
  Lines 97 to 109: the adjacency matrix. The test reads the constructor's argument
  \<^verbatim>\<open>distanceMatrix[i][j]\<close>, not the member \<^verbatim>\<open>m_DistanceMatrix\<close>, and reads it before
  comparing \<open>i\<close> with \<open>j\<close>.
\<close>

definition make_adjacency :: "nat \<Rightarrow> real list list \<Rightarrow> error + bool list list" where
  "make_adjacency order distanceMatrix =
     fill_matrix order
       (\<lambda>i j. case vget2 distanceMatrix i j of
                 Inl e \<Rightarrow> Inl e
               | Inr d \<Rightarrow> Inr (d \<ge> 0 \<and> i \<noteq> j))"

text \<open>Lines 86 to 111, run once \<^verbatim>\<open>m_DistanceMatrix\<close> is set.\<close>

definition finish_construction ::
  "real list list \<Rightarrow> nat list \<Rightarrow> nat \<Rightarrow> real list list \<Rightarrow> error + CGraph" where
  "finish_construction distanceMatrix vertexLabels order distMat =
     (if order \<noteq> length vertexLabels then Inl InputVertexLabels_BadSize
      else if order \<noteq> length (store_labels vertexLabels)
        then Inl InputVertexLabels_RepeatedLabel
      else
        case make_adjacency order distanceMatrix of
          Inl e \<Rightarrow> Inl e
        | Inr adj \<Rightarrow>
            Inr \<lparr> m_Order = order,
                  m_InternalToExternal = vertexLabels,
                  m_ExternalToInternal = store_labels vertexLabels,
                  m_DistanceMatrix = distMat,
                  m_AdjacencyMatrix = adj,
                  m_DijkstraStartVertices = [],
                  m_DijkstraOutputRoutes = [],
                  m_DijkstraShortestDistances = [] \<rparr>)"

text \<open>
  The constructor. \<^verbatim>\<open>m_Order\<close> is \<^verbatim>\<open>(unsigned int)distanceMatrix.size()\<close>, set before
  the body runs.
\<close>

definition CGraph_new :: "real list list \<Rightarrow> nat list \<Rightarrow> error + CGraph" where
  "CGraph_new distanceMatrix vertexLabels =
     (let order = length distanceMatrix mod 2 ^ 32 in
      case CheckInput_DistMat order distanceMatrix of
        Inl e \<Rightarrow> Inl e
      | Inr tooLarge \<Rightarrow> Inl InputDistMat_MatrixTooLarge
      | Inr badShape \<Rightarrow> Inl InputDistMat_NotSquareMatrix
      | Inr invalidElements \<Rightarrow> Inl InputDistMat_InvalidElements
      | Inr square \<Rightarrow> finish_construction distanceMatrix vertexLabels order distanceMatrix
      | Inr lowerTriangular \<Rightarrow>
          (case fill_lower order distanceMatrix of
             Inl e \<Rightarrow> Inl e
           | Inr distMat \<Rightarrow> finish_construction distanceMatrix vertexLabels order distMat)
      | Inr upperTriangular \<Rightarrow>
          (case fill_upper order distanceMatrix of
             Inl e \<Rightarrow> Inl e
           | Inr distMat \<Rightarrow> finish_construction distanceMatrix vertexLabels order distMat)
      | Inr undefined_shape \<Rightarrow> Inl InternalException)"

subsection \<open>Label translation\<close>

definition InternalToExternal :: "CGraph \<Rightarrow> nat \<Rightarrow> error + nat" where
  "InternalToExternal g vertex = vat (m_InternalToExternal g) vertex"

definition InternalToExternal_all :: "CGraph \<Rightarrow> nat list \<Rightarrow> error + nat list" where
  "InternalToExternal_all g vertices = sequenceE (map (InternalToExternal g) vertices)"

definition ExternalToInternal :: "CGraph \<Rightarrow> nat \<Rightarrow> error + nat" where
  "ExternalToInternal g vertex =
     (case map_of (m_ExternalToInternal g) vertex of
        None \<Rightarrow> Inl std_out_of_range
      | Some i \<Rightarrow> Inr i)"

subsection \<open>InternalDijkstra\<close>

text \<open>
  Lines 363 to 370: the start vertex and its neighbours get the start vertex as parent and
  the matrix entry as distance. The two vectors have \<open>m_Order\<close> cells and \<open>i\<close> stays below
  \<open>m_Order\<close>.
\<close>

fun Dijkstra_init ::
  "CGraph \<Rightarrow> nat \<Rightarrow> nat list \<Rightarrow> real list \<times> nat list \<Rightarrow> error + real list \<times> nat list" where
  "Dijkstra_init g startVertex [] (sd, rt) = Inr (sd, rt)"
| "Dijkstra_init g startVertex (i # rest) (sd, rt) =
     (case (if i = startVertex then Inr True
            else vget2 (m_AdjacencyMatrix g) startVertex i) of
        Inl e \<Rightarrow> Inl e
      | Inr False \<Rightarrow> Dijkstra_init g startVertex rest (sd, rt)
      | Inr True \<Rightarrow>
          (case vget2 (m_DistanceMatrix g) startVertex i of
             Inl e \<Rightarrow> Inl e
           | Inr d \<Rightarrow> Dijkstra_init g startVertex rest (sd[i := d], rt[i := startVertex])))"

text \<open>
  Lines 382 to 395: the scan for the closest unconfirmed vertex, started with
  \<^verbatim>\<open>nextClosest = -1\<close> (that is \<open>UINT_MAX\<close>) and \<^verbatim>\<open>nextShortestDistance = -1\<close>.
\<close>

definition scan_step :: "real list \<Rightarrow> bool list \<Rightarrow> nat \<Rightarrow> nat \<times> real \<Rightarrow> nat \<times> real" where
  "scan_step sd known i acc =
     (if \<not> known ! i \<and> sd ! i \<noteq> - 1 \<and> (snd acc = - 1 \<or> sd ! i < snd acc)
      then (i, sd ! i) else acc)"

definition find_next :: "nat \<Rightarrow> real list \<Rightarrow> bool list \<Rightarrow> nat" where
  "find_next order sd known = fst (fold (scan_step sd known) [0..<order] (UINT_MAX, - 1))"

text \<open>
  \<^verbatim>\<open>shortestDistances[nextClosest] + m_DistanceMatrix[nextClosest][i]\<close>, read from the
  current vectors.
\<close>

definition via_dist :: "CGraph \<Rightarrow> nat \<Rightarrow> real list \<Rightarrow> nat \<Rightarrow> error + real" where
  "via_dist g nextClosest sd i =
     (case vget sd nextClosest of
        Inl e \<Rightarrow> Inl e
      | Inr a \<Rightarrow>
          (case vget2 (m_DistanceMatrix g) nextClosest i of
             Inl e \<Rightarrow> Inl e
           | Inr b \<Rightarrow> Inr (dadd a b)))"

text \<open>Lines 398 to 410: the neighbours of \<open>nextClosest\<close> are relaxed.\<close>

fun relax ::
  "CGraph \<Rightarrow> nat \<Rightarrow> bool list \<Rightarrow> nat list \<Rightarrow> real list \<times> nat list
     \<Rightarrow> error + real list \<times> nat list" where
  "relax g nextClosest known [] (sd, rt) = Inr (sd, rt)"
| "relax g nextClosest known (i # rest) (sd, rt) =
     (if known ! i then relax g nextClosest known rest (sd, rt)
      else
        case vget2 (m_AdjacencyMatrix g) nextClosest i of
          Inl e \<Rightarrow> Inl e
        | Inr False \<Rightarrow> relax g nextClosest known rest (sd, rt)
        | Inr True \<Rightarrow>
            (case (if sd ! i = - 1 then Inr True
                   else case via_dist g nextClosest sd i of
                          Inl e \<Rightarrow> Inl e
                        | Inr d \<Rightarrow> Inr (sd ! i > d)) of
               Inl e \<Rightarrow> Inl e
             | Inr False \<Rightarrow> relax g nextClosest known rest (sd, rt)
             | Inr True \<Rightarrow>
                 (case via_dist g nextClosest sd i of
                    Inl e \<Rightarrow> Inl e
                  | Inr d \<Rightarrow>
                      relax g nextClosest known rest (sd[i := d], rt[i := nextClosest]))))"

text \<open>Lines 417 to 422.\<close>

definition more_vertices :: "nat \<Rightarrow> real list \<Rightarrow> bool list \<Rightarrow> bool" where
  "more_vertices order sd known = list_ex (\<lambda>i. \<not> known ! i \<and> sd ! i \<noteq> - 1) [0..<order]"

text \<open>
  Lines 379 to 423: the main loop, entered with \<^verbatim>\<open>moreVertices = true\<close>. The write
  \<^verbatim>\<open>knownDistances[nextClosest] = true\<close> is checked against the vector's length.
\<close>

partial_function (option) Dijkstra_loop ::
  "CGraph \<Rightarrow> real list \<Rightarrow> nat list \<Rightarrow> bool list \<Rightarrow> (error + real list \<times> nat list) option" where
  "Dijkstra_loop g sd rt known =
     (let nextClosest = find_next (m_Order g) sd known in
      case relax g nextClosest known [0..<m_Order g] (sd, rt) of
        Inl e \<Rightarrow> Some (Inl e)
      | Inr (sd', rt') \<Rightarrow>
          if nextClosest < length known then
            (let known' = known[nextClosest := True] in
             if more_vertices (m_Order g) sd' known'
             then Dijkstra_loop g sd' rt' known'
             else Some (Inr (sd', rt')))
          else Some (Inl UndefinedBehaviour))"

declare Dijkstra_loop.simps [code]

text \<open>
  Lines 426 to 430: the two vectors are appended and the start vertex is sent to the new
  last slot. The number of slots never exceeds \<open>m_Order\<close>, so the slot index fits the
  map's value type.
\<close>

definition save_results :: "CGraph \<Rightarrow> nat \<Rightarrow> real list \<Rightarrow> nat list \<Rightarrow> nat \<times> CGraph" where
  "save_results g startVertex sd rt =
     (let routes = m_DijkstraOutputRoutes g @ [rt];
          dists = m_DijkstraShortestDistances g @ [sd];
          slot = length routes - 1
      in (slot,
          g \<lparr> m_DijkstraOutputRoutes := routes,
              m_DijkstraShortestDistances := dists,
              m_DijkstraStartVertices := AList.update startVertex slot (m_DijkstraStartVertices g) \<rparr>))"

definition InternalDijkstra :: "CGraph \<Rightarrow> nat \<Rightarrow> (error + nat \<times> CGraph) option" where
  "InternalDijkstra g startVertex =
     (if startVertex \<ge> m_Order g then Some (Inl Dijkstra_InvalidStartVertex)
      else
        case map_of (m_DijkstraStartVertices g) startVertex of
          Some slot \<Rightarrow> Some (Inr (slot, g))
        | None \<Rightarrow>
            (case Dijkstra_init g startVertex [0..<m_Order g]
                    (replicate (m_Order g) (- 1), replicate (m_Order g) UINT_MAX) of
               Inl e \<Rightarrow> Some (Inl e)
             | Inr (sd0, rt0) \<Rightarrow>
                 (case Dijkstra_loop g sd0 (rt0[startVertex := startVertex])
                         ((replicate (m_Order g) False)[startVertex := True]) of
                    None \<Rightarrow> None
                  | Some (Inl e) \<Rightarrow> Some (Inl e)
                  | Some (Inr (sd, rt)) \<Rightarrow> Some (Inr (save_results g startVertex sd rt)))))"

subsection \<open>InternalShortestDistance and ShortestDistance\<close>

text \<open>
  \<^verbatim>\<open>m[k]\<close> on a \<^verbatim>\<open>std::map\<close>: a missing key is inserted with the value \<open>0\<close>.
\<close>

definition map_subscript :: "(nat \<times> nat) list \<Rightarrow> nat \<Rightarrow> nat \<times> (nat \<times> nat) list" where
  "map_subscript m k =
     (case map_of m k of
        Some v \<Rightarrow> (v, m)
      | None \<Rightarrow> (0, AList.update k 0 m))"

text \<open>
  Lines 282 and 283, 303 and 304: the parent of the last vertex is appended until the
  last vertex is \<open>target\<close>. Each step reads \<^verbatim>\<open>m_DijkstraOutputRoutes[index][route.back()]\<close>.
  The route is never empty.
\<close>

partial_function (option) walk_parents ::
  "nat list list \<Rightarrow> nat \<Rightarrow> nat \<Rightarrow> nat list \<Rightarrow> (error + nat list) option" where
  "walk_parents routes index target route =
     (if last route \<noteq> target then
        (case vget2 routes index (last route) of
           Inl e \<Rightarrow> Some (Inl e)
         | Inr p \<Rightarrow> walk_parents routes index target (route @ [p]))
      else Some (Inr route))"

declare walk_parents.simps [code]

text \<open>Lines 273 to 308: the route and the distance are read from the cache.\<close>

definition unwind ::
  "bool \<Rightarrow> CGraph \<Rightarrow> nat \<Rightarrow> nat \<Rightarrow> (error + real \<times> nat list \<times> CGraph) option" where
  "unwind fromStartVertex g startVertex endVertex =
     (if fromStartVertex then
        (let (index, m) = map_subscript (m_DijkstraStartVertices g) startVertex;
             g' = g \<lparr> m_DijkstraStartVertices := m \<rparr>
         in case walk_parents (m_DijkstraOutputRoutes g') index startVertex [endVertex] of
              None \<Rightarrow> None
            | Some (Inl e) \<Rightarrow> Some (Inl e)
            | Some (Inr reverseOutputRoute) \<Rightarrow>
                (case vget2 (m_DijkstraShortestDistances g') index endVertex of
                   Inl e \<Rightarrow> Some (Inl e)
                 | Inr d \<Rightarrow> Some (Inr (d, rev reverseOutputRoute, g'))))
      else
        (let (index, m) = map_subscript (m_DijkstraStartVertices g) endVertex;
             g' = g \<lparr> m_DijkstraStartVertices := m \<rparr>
         in case walk_parents (m_DijkstraOutputRoutes g') index endVertex [startVertex] of
              None \<Rightarrow> None
            | Some (Inl e) \<Rightarrow> Some (Inl e)
            | Some (Inr outputRoute) \<Rightarrow>
                (case vget2 (m_DijkstraShortestDistances g') index startVertex of
                   Inl e \<Rightarrow> Some (Inl e)
                 | Inr d \<Rightarrow> Some (Inr (d, outputRoute, g')))))"

text \<open>\<^verbatim>\<open>m_DijkstraStartVertices.count(v) > 0\<close>.\<close>

definition cached :: "CGraph \<Rightarrow> nat \<Rightarrow> bool" where
  "cached g v = (map_of (m_DijkstraStartVertices g) v \<noteq> None)"

definition InternalShortestDistance ::
  "CGraph \<Rightarrow> nat \<Rightarrow> nat \<Rightarrow> bool \<Rightarrow> (error + real \<times> nat list \<times> CGraph) option" where
  "InternalShortestDistance g startVertex endVertex preferStartVertex =
     (if cached g endVertex then unwind False g startVertex endVertex
      else if cached g startVertex then unwind True g startVertex endVertex
      else if preferStartVertex then
        (case InternalDijkstra g startVertex of
           None \<Rightarrow> None
         | Some (Inl e) \<Rightarrow> Some (Inl e)
         | Some (Inr (slot, g')) \<Rightarrow> unwind True g' startVertex endVertex)
      else
        (case InternalDijkstra g endVertex of
           None \<Rightarrow> None
         | Some (Inl e) \<Rightarrow> Some (Inl e)
         | Some (Inr (slot, g')) \<Rightarrow> unwind False g' startVertex endVertex))"

text \<open>
  The public function, with external labels. The result is the distance, the route and
  the graph with its cache as the call leaves it.
\<close>

definition ShortestDistance ::
  "CGraph \<Rightarrow> nat \<Rightarrow> nat \<Rightarrow> bool \<Rightarrow> (error + real \<times> nat list \<times> CGraph) option" where
  "ShortestDistance g startVertex endVertex preferStartVertex =
     (case ExternalToInternal g startVertex of
        Inl e \<Rightarrow> Some (Inl e)
      | Inr iStartVertex \<Rightarrow>
          (case ExternalToInternal g endVertex of
             Inl e \<Rightarrow> Some (Inl e)
           | Inr iEndVertex \<Rightarrow>
               (case InternalShortestDistance g iStartVertex iEndVertex preferStartVertex of
                  None \<Rightarrow> None
                | Some (Inl e) \<Rightarrow> Some (Inl e)
                | Some (Inr (d, route, g')) \<Rightarrow>
                    (case InternalToExternal_all g' route of
                       Inl e \<Rightarrow> Some (Inl e)
                     | Inr outputRoute \<Rightarrow> Some (Inr (d, outputRoute, g'))))))"

text \<open>The overload without \<^verbatim>\<open>preferStartVertex\<close> (lines 219 to 222).\<close>

definition ShortestDistance_default ::
  "CGraph \<Rightarrow> nat \<Rightarrow> nat \<Rightarrow> (error + real \<times> nat list \<times> CGraph) option" where
  "ShortestDistance_default g startVertex endVertex =
     ShortestDistance g startVertex endVertex False"

subsection \<open>Graph states that later calls can see\<close>

text \<open>
  The cache is the only state that changes after construction, and only a call of the
  public function that returns changes it. \<open>reachable g g'\<close>: the graph \<open>g\<close> becomes \<open>g'\<close>
  by some sequence of such calls.
\<close>

inductive reachable :: "CGraph \<Rightarrow> CGraph \<Rightarrow> bool" for g :: CGraph where
  reachable_refl: "reachable g g"
| reachable_step:
    "reachable g g1 \<Longrightarrow> ShortestDistance g1 a b p = Some (Inr (d, r, g2)) \<Longrightarrow> reachable g g2"

subsection \<open>Invariants of a graph\<close>

text \<open>
  \<open>well_formed\<close>: the two matrices have \<open>m_Order\<close> rows of \<open>m_Order\<close> cells and the order
  fits an \<^verbatim>\<open>unsigned int\<close>. \<open>same_graph\<close>: two states agree on everything but the
  cache. \<open>cache_ok\<close>: the two cache vectors have the same number of slots, and the slot
  of every cached start vertex exists, has \<open>m_Order\<close> distances and holds at the start
  vertex the diagonal entry of the matrix.
\<close>

definition well_formed :: "CGraph \<Rightarrow> bool" where
  "well_formed g \<longleftrightarrow>
     m_Order g \<le> UINT_MAX
     \<and> length (m_DistanceMatrix g) = m_Order g
     \<and> list_all (\<lambda>row. length row = m_Order g) (m_DistanceMatrix g)
     \<and> length (m_AdjacencyMatrix g) = m_Order g
     \<and> list_all (\<lambda>row. length row = m_Order g) (m_AdjacencyMatrix g)"

definition same_graph :: "CGraph \<Rightarrow> CGraph \<Rightarrow> bool" where
  "same_graph g g' \<longleftrightarrow>
     m_Order g' = m_Order g
     \<and> m_InternalToExternal g' = m_InternalToExternal g
     \<and> m_ExternalToInternal g' = m_ExternalToInternal g
     \<and> m_DistanceMatrix g' = m_DistanceMatrix g
     \<and> m_AdjacencyMatrix g' = m_AdjacencyMatrix g"

definition cache_ok :: "CGraph \<Rightarrow> bool" where
  "cache_ok g \<longleftrightarrow>
     length (m_DijkstraOutputRoutes g) = length (m_DijkstraShortestDistances g)
     \<and> (\<forall>s k. map_of (m_DijkstraStartVertices g) s = Some k \<longrightarrow>
           s < m_Order g
           \<and> k < length (m_DijkstraShortestDistances g)
           \<and> length (m_DijkstraShortestDistances g ! k) = m_Order g
           \<and> m_DijkstraShortestDistances g ! k ! s = m_DistanceMatrix g ! s ! s)"

subsection \<open>Paths and shortest-path trees\<close>

text \<open>
  A path is written backwards: the vertex it ends at comes first, the vertex it starts
  from last. Consecutive vertices are joined by an edge of the adjacency matrix, and the
  weight of the path is the exact (unrounded) sum of its edge weights.
\<close>

fun is_rpath :: "CGraph \<Rightarrow> nat list \<Rightarrow> bool" where
  "is_rpath g [] \<longleftrightarrow> False"
| "is_rpath g [v] \<longleftrightarrow> v < m_Order g"
| "is_rpath g (v # u # p) \<longleftrightarrow>
     v < m_Order g \<and> m_AdjacencyMatrix g ! u ! v \<and> is_rpath g (u # p)"

fun rpath_weight :: "CGraph \<Rightarrow> nat list \<Rightarrow> real" where
  "rpath_weight g (v # u # p) = rpath_weight g (u # p) + m_DistanceMatrix g ! u ! v"
| "rpath_weight g p = 0"

text \<open>
  \<open>exact_sums\<close>: the weight of every path without a repeated vertex is a double, so that
  no sum formed along such a path is rounded. \<open>adjacency_ok\<close>: the adjacency matrix is the
  one the constructor derives from the distance matrix.
\<close>

definition exact_sums :: "CGraph \<Rightarrow> bool" where
  "exact_sums g \<longleftrightarrow>
     (\<forall>p. is_rpath g p \<and> distinct p \<longrightarrow> round53 (rpath_weight g p) = rpath_weight g p)"

definition adjacency_ok :: "CGraph \<Rightarrow> bool" where
  "adjacency_ok g \<longleftrightarrow>
     (\<forall>i<m_Order g. \<forall>j<m_Order g.
        m_AdjacencyMatrix g ! i ! j = (0 \<le> m_DistanceMatrix g ! i ! j \<and> i \<noteq> j))"

text \<open>
  \<open>tree_ok g r sd rt\<close>: the vectors \<open>sd\<close> and \<open>rt\<close> are a correct result for the start
  vertex \<open>r\<close>. For every other vertex \<open>v\<close>: without a distance \<open>v\<close> has no parent either;
  a distance is the weight of some path from \<open>r\<close> to \<open>v\<close>; and every path from \<open>r\<close> to \<open>v\<close>
  weighs at least the distance, which is then present.
\<close>

definition tree_ok :: "CGraph \<Rightarrow> nat \<Rightarrow> real list \<Rightarrow> nat list \<Rightarrow> bool" where
  "tree_ok g r sd rt \<longleftrightarrow>
     length sd = m_Order g \<and> length rt = m_Order g
     \<and> (\<forall>v<m_Order g. v \<noteq> r \<longrightarrow>
           (sd ! v = - 1 \<longrightarrow> rt ! v = UINT_MAX)
           \<and> (sd ! v \<noteq> - 1 \<longrightarrow>
                (\<exists>p. is_rpath g p \<and> hd p = v \<and> last p = r \<and> rpath_weight g p = sd ! v))
           \<and> (\<forall>p. is_rpath g p \<and> hd p = v \<and> last p = r \<longrightarrow>
                sd ! v \<noteq> - 1 \<and> sd ! v \<le> rpath_weight g p))"

definition trees_ok :: "CGraph \<Rightarrow> bool" where
  "trees_ok g \<longleftrightarrow>
     (\<forall>r k. map_of (m_DijkstraStartVertices g) r = Some k \<longrightarrow>
        k < length (m_DijkstraOutputRoutes g)
        \<and> tree_ok g r (m_DijkstraShortestDistances g ! k) (m_DijkstraOutputRoutes g ! k))"

text \<open>
  The invariant of the main loop of \<^verbatim>\<open>InternalDijkstra\<close> for the start vertex \<open>r\<close>. A
  distance is the weight of a path without repetition through confirmed vertices; a
  confirmed distance is minimal; every edge from a confirmed to an unconfirmed vertex has
  been relaxed; and no confirmed distance exceeds an unconfirmed one.
\<close>

definition loop_inv :: "CGraph \<Rightarrow> nat \<Rightarrow> real list \<Rightarrow> nat list \<Rightarrow> bool list \<Rightarrow> bool" where
  "loop_inv g r sd rt known \<longleftrightarrow>
     length sd = m_Order g \<and> length rt = m_Order g \<and> length known = m_Order g
     \<and> r < m_Order g \<and> known ! r
     \<and> (\<forall>v<m_Order g. v \<noteq> r \<longrightarrow>
           (sd ! v = - 1 \<longrightarrow> rt ! v = UINT_MAX)
           \<and> (sd ! v \<noteq> - 1 \<longrightarrow>
                (\<exists>p. is_rpath g p \<and> hd p = v \<and> last p = r \<and> distinct p
                     \<and> (\<forall>u\<in>set (tl p). known ! u) \<and> rpath_weight g p = sd ! v))
           \<and> (known ! v \<longrightarrow>
                sd ! v \<noteq> - 1
                \<and> (\<forall>p. is_rpath g p \<and> hd p = v \<and> last p = r \<longrightarrow> sd ! v \<le> rpath_weight g p)))
     \<and> (\<forall>u<m_Order g. \<forall>v<m_Order g.
           known ! u \<and> \<not> known ! v \<and> m_AdjacencyMatrix g ! u ! v \<longrightarrow>
             sd ! v \<noteq> - 1
             \<and> sd ! v \<le> (if u = r then 0 else sd ! u) + m_DistanceMatrix g ! u ! v)
     \<and> (\<forall>u<m_Order g. \<forall>v<m_Order g.
           known ! u \<and> u \<noteq> r \<and> \<not> known ! v \<and> sd ! v \<noteq> - 1 \<longrightarrow> sd ! u \<le> sd ! v)"

text \<open>
  \<open>symmetric_weights\<close>: the distance matrix is symmetric. \<open>is_distance g a b d\<close>: the
  number \<open>d\<close> is the distance of the pair \<open>a\<close>, \<open>b\<close> as the program understands it:
  the diagonal entry of the matrix when \<open>a\<close> is \<open>b\<close>, and otherwise the least weight of
  a path from \<open>a\<close> to \<open>b\<close>, which some path attains.
\<close>

definition symmetric_weights :: "CGraph \<Rightarrow> bool" where
  "symmetric_weights g \<longleftrightarrow>
     (\<forall>i<m_Order g. \<forall>j<m_Order g. m_DistanceMatrix g ! i ! j = m_DistanceMatrix g ! j ! i)"

definition is_distance :: "CGraph \<Rightarrow> nat \<Rightarrow> nat \<Rightarrow> real \<Rightarrow> bool" where
  "is_distance g a b d \<longleftrightarrow>
     (if a = b then d = m_DistanceMatrix g ! a ! a
      else (\<exists>q. is_rpath g q \<and> hd q = b \<and> last q = a \<and> rpath_weight g q = d)
         \<and> (\<forall>q. is_rpath g q \<and> hd q = b \<and> last q = a \<longrightarrow> d \<le> rpath_weight g q))"

subsection \<open>Concrete inputs\<close>

text \<open>The path graph 10 - 20 - 30 - 40 with edge weights 1, 2 and 3.\<close>

definition path_matrix :: "real list list" where
  "path_matrix = [[0, 1, - 1, - 1], [1, 0, 2, - 1], [- 1, 2, 0, 3], [- 1, - 1, 3, 0]]"

definition path_graph :: CGraph where
  "path_graph =
     \<lparr> m_Order = 4,
       m_InternalToExternal = [10, 20, 30, 40],
       m_ExternalToInternal = [(10, 0), (20, 1), (30, 2), (40, 3)],
       m_DistanceMatrix = path_matrix,
       m_AdjacencyMatrix =
         [[False, True, False, False], [True, False, True, False],
          [False, True, False, True], [False, False, True, False]],
       m_DijkstraStartVertices = [],
       m_DijkstraOutputRoutes = [],
       m_DijkstraShortestDistances = [] \<rparr>"

text \<open>The same graph with the tree rooted at vertex 3 (label 40) in slot 0.\<close>

definition path_graph_40 :: CGraph where
  "path_graph_40 =
     path_graph \<lparr> m_DijkstraStartVertices := [(3, 0)],
                  m_DijkstraOutputRoutes := [[1, 2, 3, 3]],
                  m_DijkstraShortestDistances := [[6, 5, 3, 0]] \<rparr>"

text \<open>The same graph with the tree rooted at vertex 0 (label 10) in slot 0.\<close>

definition path_graph_10 :: CGraph where
  "path_graph_10 =
     path_graph \<lparr> m_DijkstraStartVertices := [(0, 0)],
                  m_DijkstraOutputRoutes := [[0, 0, 1, 2]],
                  m_DijkstraShortestDistances := [[0, 1, 3, 6]] \<rparr>"

text \<open>Both trees: vertex 3 in slot 0, vertex 0 in slot 1.\<close>

definition path_graph_40_10 :: CGraph where
  "path_graph_40_10 =
     path_graph \<lparr> m_DijkstraStartVertices := [(3, 0), (0, 1)],
                  m_DijkstraOutputRoutes := [[1, 2, 3, 3], [0, 0, 1, 2]],
                  m_DijkstraShortestDistances := [[6, 5, 3, 0], [0, 1, 3, 6]] \<rparr>"

text \<open>Two components, 10 - 20 and 30 - 40, both edges of weight 1.\<close>

definition split_matrix :: "real list list" where
  "split_matrix = [[0, 1, - 1, - 1], [1, 0, - 1, - 1], [- 1, - 1, 0, 1], [- 1, - 1, 1, 0]]"

definition split_graph :: CGraph where
  "split_graph =
     \<lparr> m_Order = 4,
       m_InternalToExternal = [10, 20, 30, 40],
       m_ExternalToInternal = [(10, 0), (20, 1), (30, 2), (40, 3)],
       m_DistanceMatrix = split_matrix,
       m_AdjacencyMatrix =
         [[False, True, False, False], [True, False, False, False],
          [False, False, False, True], [False, False, True, False]],
       m_DijkstraStartVertices = [],
       m_DijkstraOutputRoutes = [],
       m_DijkstraShortestDistances = [] \<rparr>"

text \<open>The tree rooted at vertex 2 (label 30): vertices 0 and 1 keep both sentinels.\<close>

definition split_graph_30 :: CGraph where
  "split_graph_30 =
     split_graph \<lparr> m_DijkstraStartVertices := [(2, 0)],
                   m_DijkstraOutputRoutes := [[UINT_MAX, UINT_MAX, 2, 2]],
                   m_DijkstraShortestDistances := [[- 1, - 1, 0, 1]] \<rparr>"

text \<open>Two vertices joined by an edge of weight 1, with 5 on the diagonal.\<close>

definition diag_graph :: CGraph where
  "diag_graph =
     \<lparr> m_Order = 2,
       m_InternalToExternal = [10, 20],
       m_ExternalToInternal = [(10, 0), (20, 1)],
       m_DistanceMatrix = [[5, 1], [1, 5]],
       m_AdjacencyMatrix = [[False, True], [True, False]],
       m_DijkstraStartVertices = [],
       m_DijkstraOutputRoutes = [],
       m_DijkstraShortestDistances = [] \<rparr>"

definition diag_graph_10 :: CGraph where
  "diag_graph_10 =
     diag_graph \<lparr> m_DijkstraStartVertices := [(0, 0)],
                  m_DijkstraOutputRoutes := [[0, 0]],
                  m_DijkstraShortestDistances := [[5, 1]] \<rparr>"

text \<open>Two vertices joined by an edge of weight 1, built from the square matrix.\<close>

definition pair_graph :: CGraph where
  "pair_graph =
     \<lparr> m_Order = 2,
       m_InternalToExternal = [10, 20],
       m_ExternalToInternal = [(10, 0), (20, 1)],
       m_DistanceMatrix = [[0, 1], [1, 0]],
       m_AdjacencyMatrix = [[False, True], [True, False]],
       m_DijkstraStartVertices = [],
       m_DijkstraOutputRoutes = [],
       m_DijkstraShortestDistances = [] \<rparr>"

definition pair_graph_20 :: CGraph where
  "pair_graph_20 =
     pair_graph \<lparr> m_DijkstraStartVertices := [(1, 0)],
                  m_DijkstraOutputRoutes := [[1, 1]],
                  m_DijkstraShortestDistances := [[1, 0]] \<rparr>"

text \<open>
  The path 10 - 20 - 30 - 40 with edge weights \<open>2 ^ 53\<close>, 1 and 1; every entry is a
  double and the matrix is symmetric.
\<close>

definition big_matrix :: "real list list" where
  "big_matrix =
     [[0, 9007199254740992, - 1, - 1], [9007199254740992, 0, 1, - 1],
      [- 1, 1, 0, 1], [- 1, - 1, 1, 0]]"

definition big_graph :: CGraph where
  "big_graph =
     \<lparr> m_Order = 4,
       m_InternalToExternal = [10, 20, 30, 40],
       m_ExternalToInternal = [(10, 0), (20, 1), (30, 2), (40, 3)],
       m_DistanceMatrix = big_matrix,
       m_AdjacencyMatrix =
         [[False, True, False, False], [True, False, True, False],
          [False, True, False, True], [False, False, True, False]],
       m_DijkstraStartVertices = [],
       m_DijkstraOutputRoutes = [],
       m_DijkstraShortestDistances = [] \<rparr>"

text \<open>The tree rooted at vertex 3 (label 40): the sums are 1 + 1 and 2 + \<open>2 ^ 53\<close>.\<close>

definition big_graph_40 :: CGraph where
  "big_graph_40 =
     big_graph \<lparr> m_DijkstraStartVertices := [(3, 0)],
                 m_DijkstraOutputRoutes := [[1, 2, 3, 3]],
                 m_DijkstraShortestDistances := [[9007199254740994, 2, 1, 0]] \<rparr>"

text \<open>
  Both trees. In the tree rooted at vertex 0 (label 10) the sums are \<open>2 ^ 53\<close> + 1, twice,
  each rounded to \<open>2 ^ 53\<close>.
\<close>

definition big_graph_40_10 :: CGraph where
  "big_graph_40_10 =
     big_graph \<lparr> m_DijkstraStartVertices := [(3, 0), (0, 1)],
                 m_DijkstraOutputRoutes := [[1, 2, 3, 3], [0, 0, 1, 2]],
                 m_DijkstraShortestDistances :=
                   [[9007199254740994, 2, 1, 0],
                    [0, 9007199254740992, 9007199254740992, 9007199254740992]] \<rparr>"

section \<open>Sums of doubles\<close>

lemma ties_to_even_of_int: "ties_to_even (of_int m) = m"
  by (simp add: ties_to_even_def)

text \<open>A number with at most 53 significant bits is its own rounding.\<close>

lemma round53_exact:
  assumes "\<bar>m\<bar> < 2 ^ 53"
  shows "round53 (of_int m * 2 powi k) = of_int m * 2 powi k"
proof (cases "m = 0")
  case True
  then show ?thesis by (simp add: round53_def)
next
  case False
  let ?x = "real_of_int m * 2 powi k"
  have x0: "?x \<noteq> 0" using False by simp
  have absx: "\<bar>?x\<bar> = of_int \<bar>m\<bar> * 2 powi k"
    by (simp add: abs_mult)
  have "\<bar>?x\<bar> < 2 ^ 53 * 2 powi k"
    unfolding absx using assms by (intro mult_strict_right_mono) (simp_all flip: of_int_less_iff)
  also have "\<dots> = 2 powi (k + 53)"
    by (simp add: power_int_add)
  also have "\<dots> = 2 powr real_of_int (k + 53)"
    by (rule powr_real_of_int' [symmetric]) simp_all
  finally have lt: "\<bar>?x\<bar> < 2 powr real_of_int (k + 53)" .
  have pos: "0 < \<bar>?x\<bar>" using x0 by simp
  from lt pos have "log 2 \<bar>?x\<bar> < real_of_int (k + 53)"
    by (simp add: less_powr_iff)
  then have "\<lfloor>log 2 \<bar>?x\<bar>\<rfloor> < k + 53"
    by (simp add: floor_less_iff)
  then have "0 \<le> k - (\<lfloor>log 2 \<bar>?x\<bar>\<rfloor> - 52)"
    by linarith
  then obtain j :: nat where "k - (\<lfloor>log 2 \<bar>?x\<bar>\<rfloor> - 52) = int j"
    using nonneg_int_cases by blast
  define e where "e = \<lfloor>log 2 \<bar>?x\<bar>\<rfloor> - 52"
  with \<open>k - (\<lfloor>log 2 \<bar>?x\<bar>\<rfloor> - 52) = int j\<close> have j: "k = e + int j"
    by linarith
  have split: "(2::real) powi k = 2 powi e * 2 ^ j"
    by (simp add: j power_int_add)
  have pe: "(2::real) powi e \<noteq> 0"
    by simp
  have "?x / 2 powi e = of_int (m * 2 ^ j)"
    unfolding split using pe by simp
  then have "ties_to_even (?x / 2 powi e) = m * 2 ^ j"
    by (simp only: ties_to_even_of_int)
  moreover have "round53 ?x = of_int (ties_to_even (?x / 2 powi e)) * 2 powi e"
    using x0 unfolding round53_def e_def Let_def by (simp only: if_False)
  ultimately have "round53 ?x = of_int (m * 2 ^ j) * 2 powi e"
    by simp
  also have "\<dots> = real_of_int m * (2 powi e * 2 ^ j)"
    by simp
  also have "\<dots> = ?x"
    by (simp only: split)
  finally show ?thesis .
qed

lemma round53_of_int: "\<bar>m\<bar> < 2 ^ 53 \<Longrightarrow> round53 (of_int m) = of_int m"
  using round53_exact [of m 0] by simp

lemma dadd_of_int:
  "\<bar>m + n\<bar> < 2 ^ 53 \<Longrightarrow> dadd (of_int m) (of_int n) = of_int (m + n)"
  using round53_of_int [of "m + n"] by (simp add: dadd_def)

lemma dadd_numeral:
  "(numeral (a + b) :: int) < 2 ^ 53 \<Longrightarrow> dadd (numeral a) (numeral b) = numeral (a + b)"
  using dadd_of_int [of "numeral a" "numeral b"] by simp

lemma dadd_one_numeral:
  "(numeral (Num.One + b) :: int) < 2 ^ 53 \<Longrightarrow> dadd 1 (numeral b) = numeral (Num.One + b)"
  using dadd_of_int [of 1 "numeral b"] by simp

lemma dadd_numeral_one:
  "(numeral (a + Num.One) :: int) < 2 ^ 53 \<Longrightarrow> dadd (numeral a) 1 = numeral (a + Num.One)"
  using dadd_of_int [of "numeral a" 1] by simp

lemma dadd_one_one: "dadd 1 1 = 2"
  using dadd_of_int [of 1 1] by simp

text \<open>
  \<open>2 ^ 53 + 1\<close> lies halfway between the doubles \<open>2 ^ 53\<close> and \<open>2 ^ 53 + 2\<close> and is
  rounded to the first, whose last bit is 0.
\<close>

lemma round53_tie: "round53 9007199254740993 = 9007199254740992"
proof -
  have "\<lfloor>log 2 (9007199254740993::real)\<rfloor> = 53"
    by (simp add: floor_log_eq_powr_iff)
  then show ?thesis
    by (simp add: round53_def ties_to_even_def)
qed

lemma dadd_tie: "dadd 9007199254740992 1 = 9007199254740992"
  using round53_tie by (simp add: dadd_def)

lemma dadd_big: "dadd 2 9007199254740992 = 9007199254740994"
  using round53_exact [of 4503599627370497 1] by (simp add: dadd_def)

section \<open>Evaluation on concrete inputs\<close>

lemma upt_0_2: "[0..<2] = [0, 1]"
  by (simp add: upt_rec)

lemma upt_0_3: "[0..<3] = [0, 1, 2]"
  by (simp add: upt_rec)

lemma upt_0_4: "[0..<4] = [0, 1, 2, 3]"
  by (simp add: upt_rec)

lemma list_update_Cons_numeral: "(x # xs)[numeral v := y] = x # xs[numeral v - 1 := y]"
  by (simp add: numeral_eq_Suc)

lemma replicate_numeral: "replicate (numeral v) x = x # replicate (numeral v - 1) x"
  by (simp add: numeral_eq_Suc)

lemmas access_defs = vget_def vget2_def vat_def

lemmas eval_simps =
  access_defs list_update_Cons_numeral replicate_numeral UINT_MAX_def
  dadd_numeral dadd_one_numeral dadd_numeral_one dadd_one_one

lemmas check_defs =
  CheckInput_DistMat_def guess_shape_def and_then_def row_size_is_def has_invalid_element_def

lemmas dijkstra_defs =
  InternalDijkstra_def Dijkstra_loop.simps find_next_def scan_step_def more_vertices_def
  save_results_def via_dist_def

lemmas query_defs =
  ShortestDistance_default_def ShortestDistance_def InternalShortestDistance_def unwind_def
  map_subscript_def walk_parents.simps InternalToExternal_all_def InternalToExternal_def

subsection \<open>The path graph\<close>

lemma path_check: "CheckInput_DistMat 4 path_matrix = Inr square"
  by (simp add: check_defs eval_simps path_matrix_def upt_0_4)

lemma path_adjacency:
  "make_adjacency 4 path_matrix =
     Inr [[False, True, False, False], [True, False, True, False],
          [False, True, False, True], [False, False, True, False]]"
  by (simp add: make_adjacency_def fill_matrix_def access_defs path_matrix_def upt_0_4)

lemma path_labels: "store_labels [10, 20, 30, 40] = [(10, 0), (20, 1), (30, 2), (40, 3)]"
  by (simp add: store_labels_def upt_0_4)

lemma path_new: "CGraph_new path_matrix [10, 20, 30, 40] = Inr path_graph"
proof -
  have "length path_matrix mod 2 ^ 32 = 4"
    by (simp add: path_matrix_def)
  then show ?thesis
    by (simp add: CGraph_new_def path_check finish_construction_def path_labels
        path_adjacency path_graph_def)
qed

lemma path_labels_in:
  "ExternalToInternal path_graph 10 = Inr 0" "ExternalToInternal path_graph 40 = Inr 3"
  "ExternalToInternal path_graph_40 10 = Inr 0" "ExternalToInternal path_graph_40 40 = Inr 3"
  by (simp_all add: ExternalToInternal_def path_graph_def path_graph_40_def)

lemma path_not_cached:
  "\<not> cached path_graph 0" "\<not> cached path_graph 3" "\<not> cached path_graph_40 0"
  by (simp_all add: cached_def path_graph_def path_graph_40_def)

lemma path_dijkstra_3: "InternalDijkstra path_graph 3 = Some (Inr (0, path_graph_40))"
  by (simp add: dijkstra_defs eval_simps upt_0_4 path_graph_def path_graph_40_def
      path_matrix_def)

lemma path_dijkstra_0: "InternalDijkstra path_graph 0 = Some (Inr (0, path_graph_10))"
  by (simp add: dijkstra_defs eval_simps upt_0_4 path_graph_def path_graph_10_def
      path_matrix_def)

lemma path_dijkstra_0_after:
  "InternalDijkstra path_graph_40 0 = Some (Inr (1, path_graph_40_10))"
  by (simp add: dijkstra_defs eval_simps upt_0_4 path_graph_def path_graph_40_def
      path_graph_40_10_def path_matrix_def)

lemma path_query_10_40:
  "ShortestDistance_default path_graph 10 40 = Some (Inr (6, [10, 20, 30, 40], path_graph_40))"
  by (simp add: query_defs path_labels_in path_not_cached path_dijkstra_3)
     (simp add: query_defs eval_simps path_graph_def path_graph_40_def)

lemma path_query_10_10:
  "ShortestDistance_default path_graph 10 10 = Some (Inr (0, [10], path_graph_10))"
  by (simp add: query_defs path_labels_in path_not_cached path_dijkstra_0)
     (simp add: query_defs eval_simps path_graph_def path_graph_10_def)

lemma path_query_10_10_after:
  "ShortestDistance_default path_graph_40 10 10 = Some (Inr (0, [10], path_graph_40_10))"
  by (simp add: query_defs path_labels_in path_not_cached path_dijkstra_0_after)
     (simp add: query_defs eval_simps path_graph_def path_graph_40_def path_graph_40_10_def)

text \<open>
  Claim C1. The graph built from the labels 10, 20, 30, 40 and the square matrix of the
  path 10 - 20 - 30 - 40 answers \<^verbatim>\<open>ShortestDistance(10, 40)\<close> with the distance 6 and the
  route 10, 20, 30, 40, and \<^verbatim>\<open>ShortestDistance(10, 10)\<close> with the distance 0 and the route
  10; the second answer is the same whether the query comes first or after the other one.
\<close>

theorem C1_path_graph_scenario:
  "CGraph_new [[0, 1, - 1, - 1], [1, 0, 2, - 1], [- 1, 2, 0, 3], [- 1, - 1, 3, 0]]
      [10, 20, 30, 40] = Inr path_graph
   \<and> ShortestDistance_default path_graph 10 40
       = Some (Inr (6, [10, 20, 30, 40], path_graph_40))
   \<and> ShortestDistance_default path_graph 10 10 = Some (Inr (0, [10], path_graph_10))
   \<and> ShortestDistance_default path_graph_40 10 10
       = Some (Inr (0, [10], path_graph_40_10))"
  using path_new path_query_10_40 path_query_10_10 path_query_10_10_after
  by (simp add: path_matrix_def)

subsection \<open>Triangular inputs\<close>

lemma lower3_check:
  "CheckInput_DistMat 3 [[0], [1, 0], [- 1, 2, 0]] = Inr lowerTriangular"
  by (simp add: check_defs eval_simps upt_0_3)

lemma lower3_fill:
  "fill_lower 3 [[0], [1, 0], [- 1, 2, 0]] = Inr [[0, 1, - 1], [1, 0, 2], [- 1, 2, 0]]"
  by (simp add: fill_lower_def fill_matrix_def access_defs upt_0_3)

lemma lower3_adjacency:
  "make_adjacency 3 [[0], [1, 0], [- 1, 2, 0]] = Inl UndefinedBehaviour"
  by (simp add: make_adjacency_def fill_matrix_def access_defs upt_0_3)

lemma lower3_labels: "store_labels [10, 20, 30] = [(10, 0), (20, 1), (30, 2)]"
  by (simp add: store_labels_def upt_0_3)

text \<open>
  Claim C2, at a lower-triangular input. The three rows 0 / 1 0 / -1 2 0 pass the input
  check as lower-triangular and the square matrix is filled from them, but the adjacency
  loop then reads cell (0, 1) of the input itself, whose row 0 has one cell: the
  constructor reads out of range and no adjacency matrix is derived.
\<close>

theorem C2_triangular_adjacency_out_of_range:
  "CheckInput_DistMat 3 [[0], [1, 0], [- 1, 2, 0]] = Inr lowerTriangular
   \<and> fill_lower 3 [[0], [1, 0], [- 1, 2, 0]] = Inr [[0, 1, - 1], [1, 0, 2], [- 1, 2, 0]]
   \<and> make_adjacency 3 [[0], [1, 0], [- 1, 2, 0]] = Inl UndefinedBehaviour
   \<and> CGraph_new [[0], [1, 0], [- 1, 2, 0]] [10, 20, 30] = Inl UndefinedBehaviour"
  by (simp add: CGraph_new_def lower3_check lower3_fill lower3_adjacency lower3_labels
      finish_construction_def)

lemma pair_square_new: "CGraph_new [[0, 1], [1, 0]] [10, 20] = Inr pair_graph"
  by (simp add: CGraph_new_def check_defs finish_construction_def store_labels_def
      make_adjacency_def fill_matrix_def eval_simps upt_0_2 pair_graph_def)

lemma pair_lower_new: "CGraph_new [[0], [1, 0]] [10, 20] = Inl UndefinedBehaviour"
  by (simp add: CGraph_new_def check_defs finish_construction_def store_labels_def
      make_adjacency_def fill_lower_def fill_matrix_def eval_simps upt_0_2)

lemma pair_upper_new: "CGraph_new [[0, 1], [0]] [10, 20] = Inl UndefinedBehaviour"
  by (simp add: CGraph_new_def check_defs finish_construction_def store_labels_def
      make_adjacency_def fill_upper_def fill_matrix_def eval_simps upt_0_2)

lemma pair_dijkstra_1: "InternalDijkstra pair_graph (Suc 0) = Some (Inr (0, pair_graph_20))"
  by (simp add: dijkstra_defs eval_simps upt_0_2 pair_graph_def pair_graph_20_def)

lemma pair_query:
  "ShortestDistance_default pair_graph 10 20 = Some (Inr (1, [10, 20], pair_graph_20))"
proof -
  have "ExternalToInternal pair_graph 10 = Inr 0" "ExternalToInternal pair_graph 20 = Inr 1"
    "\<not> cached pair_graph 0" "\<not> cached pair_graph 1"
    by (simp_all add: ExternalToInternal_def cached_def pair_graph_def)
  then show ?thesis
    by (simp add: query_defs pair_dijkstra_1)
       (simp add: query_defs eval_simps pair_graph_def pair_graph_20_def)
qed

text \<open>
  Claim C9, at the two-vertex graph with one edge of weight 1. The square symmetric
  matrix builds a graph that answers the query from 10 to 20 with distance 1 and route
  10, 20. The lower-triangular rows 0 / 1 0 and the upper-triangular rows 0 1 / 0 of the
  same graph both end the constructor with a read out of range, so there is no graph to
  query.
\<close>

theorem C9_triangular_input_not_constructed:
  "CGraph_new [[0, 1], [1, 0]] [10, 20] = Inr pair_graph
   \<and> ShortestDistance_default pair_graph 10 20 = Some (Inr (1, [10, 20], pair_graph_20))
   \<and> CGraph_new [[0], [1, 0]] [10, 20] = Inl UndefinedBehaviour
   \<and> CGraph_new [[0, 1], [0]] [10, 20] = Inl UndefinedBehaviour"
  using pair_square_new pair_query pair_lower_new pair_upper_new by simp

subsection \<open>A graph with two components\<close>

lemma split_new: "CGraph_new split_matrix [10, 20, 30, 40] = Inr split_graph"
proof -
  have "length split_matrix mod 2 ^ 32 = 4"
    by (simp add: split_matrix_def)
  moreover have "CheckInput_DistMat 4 split_matrix = Inr square"
    by (simp add: check_defs eval_simps split_matrix_def upt_0_4)
  moreover have "make_adjacency 4 split_matrix = Inr (m_AdjacencyMatrix split_graph)"
    by (simp add: make_adjacency_def fill_matrix_def access_defs split_matrix_def upt_0_4
        split_graph_def)
  ultimately show ?thesis
    by (simp add: CGraph_new_def finish_construction_def path_labels split_graph_def)
qed

lemma split_dijkstra_2: "InternalDijkstra split_graph 2 = Some (Inr (0, split_graph_30))"
  by (simp add: dijkstra_defs eval_simps upt_0_4 split_graph_def split_graph_30_def
      split_matrix_def)

lemma split_walk:
  "walk_parents (m_DijkstraOutputRoutes split_graph_30) 0 2 [0] = Some (Inl UndefinedBehaviour)"
  by (simp add: walk_parents.simps eval_simps split_graph_def split_graph_30_def)

lemma split_query:
  "ShortestDistance_default split_graph 10 30 = Some (Inl UndefinedBehaviour)"
proof -
  have "ExternalToInternal split_graph 10 = Inr 0" "ExternalToInternal split_graph 30 = Inr 2"
    "\<not> cached split_graph 0" "\<not> cached split_graph 2"
    by (simp_all add: ExternalToInternal_def cached_def split_graph_def)
  moreover have "map_subscript (m_DijkstraStartVertices split_graph_30) 2
      = (0, m_DijkstraStartVertices split_graph_30)"
    by (simp add: map_subscript_def split_graph_30_def split_graph_def)
  ultimately show ?thesis
    by (simp add: ShortestDistance_default_def ShortestDistance_def
        InternalShortestDistance_def unwind_def split_dijkstra_2 split_walk)
qed

text \<open>
  Claim C3, at the graph with the components 10 - 20 and 30 - 40. The query from 10 to
  30 computes the tree rooted at 30, in which vertex 10 has the parent sentinel
  \<open>UINT_MAX\<close>; the walk appends the sentinel and then reads the parent vector at index
  \<open>UINT_MAX\<close>, out of range. The call ends in undefined behaviour, not in an error that
  says the pair is unreachable.
\<close>

theorem C3_unreachable_pair_out_of_range:
  "CGraph_new [[0, 1, - 1, - 1], [1, 0, - 1, - 1], [- 1, - 1, 0, 1], [- 1, - 1, 1, 0]]
      [10, 20, 30, 40] = Inr split_graph
   \<and> InternalDijkstra split_graph 2 = Some (Inr (0, split_graph_30))
   \<and> walk_parents [[UINT_MAX, UINT_MAX, 2, 2]] 0 2 [0] = Some (Inl UndefinedBehaviour)
   \<and> ShortestDistance_default split_graph 10 30 = Some (Inl UndefinedBehaviour)"
  using split_new split_dijkstra_2 split_walk split_query
  by (simp add: split_matrix_def split_graph_30_def split_graph_def)

subsection \<open>A diagonal that is not zero\<close>

lemma diag_new: "CGraph_new [[5, 1], [1, 5]] [10, 20] = Inr diag_graph"
  by (simp add: CGraph_new_def check_defs finish_construction_def store_labels_def
      make_adjacency_def fill_matrix_def eval_simps upt_0_2 diag_graph_def)

lemma diag_dijkstra_0: "InternalDijkstra diag_graph 0 = Some (Inr (0, diag_graph_10))"
  by (simp add: dijkstra_defs eval_simps upt_0_2 diag_graph_def diag_graph_10_def)

lemma diag_query:
  "ShortestDistance diag_graph 10 10 False = Some (Inr (5, [10], diag_graph_10))"
proof -
  have "ExternalToInternal diag_graph 10 = Inr 0" "\<not> cached diag_graph 0"
    by (simp_all add: ExternalToInternal_def cached_def diag_graph_def)
  then show ?thesis
    by (simp add: query_defs diag_dijkstra_0)
       (simp add: query_defs eval_simps diag_graph_def diag_graph_10_def)
qed

subsection \<open>Fewer than two rows\<close>

lemma one_by_one_new: "CGraph_new [[0]] [10] = Inl UndefinedBehaviour"
  by (simp add: CGraph_new_def check_defs eval_simps)

lemma one_row_two_cells_new: "CGraph_new [[0, 0]] [10] = Inl InputDistMat_NotSquareMatrix"
  by (simp add: CGraph_new_def check_defs eval_simps)

lemma no_rows_new: "CGraph_new [] [] = Inl UndefinedBehaviour"
  by (simp add: CGraph_new_def check_defs eval_simps)

section \<open>The constructor in general\<close>

subsection \<open>Filling a matrix, reading the input\<close>

lemma sequenceE_map_Inr: "sequenceE (map Inr vs) = Inr vs"
  by (induction vs) simp_all

lemma sequenceE_Inr_D: "sequenceE xs = Inr vs \<Longrightarrow> xs = map Inr vs"
  by (induction xs arbitrary: vs) (auto split: sum.splits)

lemma sequenceE_Inr_iff: "sequenceE xs = Inr vs \<longleftrightarrow> xs = map Inr vs"
  using sequenceE_map_Inr sequenceE_Inr_D by metis

lemma fill_matrix_Inr:
  assumes "fill_matrix n f = Inr m"
  shows "length m = n" and "\<And>i. i < n \<Longrightarrow> length (m ! i) = n"
    and "\<And>i j. i < n \<Longrightarrow> j < n \<Longrightarrow> f i j = Inr (m ! i ! j)"
proof -
  from assms have eq: "map (\<lambda>i. sequenceE (map (f i) [0..<n])) [0..<n] = map Inr m"
    by (simp add: fill_matrix_def sequenceE_Inr_iff)
  from arg_cong [OF this, of length] show len: "length m = n"
    by simp
  have row: "map (f i) [0..<n] = map Inr (m ! i)" if "i < n" for i
  proof -
    from arg_cong [OF eq, of "\<lambda>xs. xs ! i"] that len
    have "sequenceE (map (f i) [0..<n]) = Inr (m ! i)"
      by simp
    then show ?thesis
      by (simp add: sequenceE_Inr_iff)
  qed
  show rl: "length (m ! i) = n" if "i < n" for i
    using arg_cong [OF row [OF that], of length] by simp
  show "f i j = Inr (m ! i ! j)" if "i < n" "j < n" for i j
    using arg_cong [OF row [OF that(1)], of "\<lambda>xs. xs ! j"] that rl [OF that(1)] by simp
qed

lemma vget2_Inr_iff: "vget2 m i j = Inr v \<longleftrightarrow> i < length m \<and> j < length (m ! i) \<and> v = m ! i ! j"
  by (auto simp: vget2_def vget_def)

lemma make_adjacency_Inr:
  assumes "make_adjacency n dm = Inr adj"
  shows "length adj = n" and "\<And>i. i < n \<Longrightarrow> length (adj ! i) = n"
    and "\<And>i j. i < n \<Longrightarrow> j < n \<Longrightarrow>
           i < length dm \<and> j < length (dm ! i) \<and> adj ! i ! j = (dm ! i ! j \<ge> 0 \<and> i \<noteq> j)"
proof -
  note fm = fill_matrix_Inr [OF assms [unfolded make_adjacency_def]]
  show "length adj = n" by (rule fm(1))
  show "length (adj ! i) = n" if "i < n" for i by (rule fm(2) [OF that])
  show "i < length dm \<and> j < length (dm ! i) \<and> adj ! i ! j = (dm ! i ! j \<ge> 0 \<and> i \<noteq> j)"
    if "i < n" "j < n" for i j
    using fm(3) [OF that] by (auto simp: vget2_def vget_def split: sum.splits if_splits)
qed

lemma uint_wrap_minus: "1 \<le> n \<Longrightarrow> n \<le> UINT_MAX \<Longrightarrow> (n + 2 ^ 32 - 1) mod 2 ^ 32 = n - (1::nat)"
  by (simp add: UINT_MAX_def mod_if)

lemma size_wrap_minus: "1 \<le> n \<Longrightarrow> n \<le> UINT_MAX \<Longrightarrow> (n + 2 ^ 64 - 1) mod 2 ^ 64 = n - (1::nat)"
  by (simp add: UINT_MAX_def mod_if)

lemma guess_shape_two_rows:
  assumes "2 \<le> length dm" "n \<le> UINT_MAX" "1 \<le> n"
  shows "guess_shape n dm =
     Inr (if length (dm ! 0) = n \<and> length (dm ! 1) = n then square
          else if length (dm ! 0) = 1 \<and> length (dm ! 1) = 2 then lowerTriangular
          else if length (dm ! 0) = n \<and> length (dm ! 1) = n - 1 then upperTriangular
          else badShape)"
proof -
  have r0: "row_size_is dm 0 k = Inr (length (dm ! 0) = k)" for k
    using assms(1) by (auto simp: row_size_is_def vget_def)
  have r1: "row_size_is dm 1 k = Inr (length (dm ! 1) = k)" for k
    using assms(1) by (auto simp: row_size_is_def vget_def)
  have a: "and_then (Inr a) (Inr b) = Inr (a \<and> b)" for a b
    by (cases a) (simp_all add: and_then_def)
  show ?thesis
    unfolding guess_shape_def r0 r1 a uint_wrap_minus [OF assms(3) assms(2)]
    by (simp add: bool.case_eq_if)
qed

lemma guess_shape_Inr_rows:
  assumes "guess_shape n dm = Inr sh" "sh \<noteq> badShape"
  shows "2 \<le> length dm"
  using assms
  by (auto simp: guess_shape_def and_then_def row_size_is_def vget_def
      split: sum.splits if_splits bool.splits)

lemma check_rows_square:
  assumes "set is \<subseteq> {..<length dm}" "\<forall>i\<in>set is. length (dm ! i) \<le> UINT_MAX"
  shows "check_rows square n dm is =
     (if \<forall>i\<in>set is. length (dm ! i) = n then Inr None else Inr (Some badShape))"
  using assms by (induction "is") (auto simp: vget_def)

lemma check_rows_lower:
  assumes "set is \<subseteq> {..<length dm}" "\<forall>i\<in>set is. length (dm ! i) \<le> UINT_MAX"
  shows "check_rows lowerTriangular n dm is =
     (if \<forall>i\<in>set is. 0 < i \<longrightarrow> length (dm ! i) = length (dm ! (i - 1)) + 1
      then Inr None else Inr (Some badShape))"
  using assms by (induction "is") (auto simp: vget_def)

lemma check_rows_upper:
  assumes "set is \<subseteq> {..<length dm}" "\<forall>i\<in>set is. length (dm ! i) \<le> UINT_MAX"
  shows "check_rows upperTriangular n dm is =
     (if \<forall>i\<in>set is. 0 < i \<longrightarrow> length (dm ! i) = (length (dm ! (i - 1)) + 2 ^ 64 - 1) mod 2 ^ 64
      then Inr None else Inr (Some badShape))"
  using assms by (induction "is") (auto simp: vget_def)

lemma check_rows_results:
  "check_rows sh n dm is = Inr (Some r) \<Longrightarrow> r = tooLarge \<or> r = badShape"
  by (induction "is") (auto split: sum.splits if_splits)

lemma check_rows_square_None:
  "check_rows square n dm is = Inr None \<Longrightarrow> i \<in> set is \<Longrightarrow> i < length dm \<and> length (dm ! i) = n"
  by (induction "is") (auto simp: vget_def split: sum.splits if_splits)

lemma CheckInput_accepts:
  assumes "CheckInput_DistMat n dm = Inr sh" "sh \<in> {square, lowerTriangular, upperTriangular}"
  shows "length dm \<le> UINT_MAX" "guess_shape n dm = Inr sh"
    "check_rows sh n dm [0..<n] = Inr None" "\<not> has_invalid_element n dm"
proof -
  show le: "length dm \<le> UINT_MAX"
    using assms by (auto simp: CheckInput_DistMat_def split: if_splits)
  obtain gs where gs: "guess_shape n dm = Inr gs" "gs \<noteq> badShape"
    using assms le
    by (auto simp: CheckInput_DistMat_def split: if_splits sum.splits CGraph_DistMatCheckResult.splits)
  then obtain res where res: "check_rows gs n dm [0..<n] = Inr res"
    using assms le
    by (cases "check_rows gs n dm [0..<n]")
       (auto simp: CheckInput_DistMat_def split: CGraph_DistMatCheckResult.splits)
  have tail: "CheckInput_DistMat n dm =
      (case res of Some r \<Rightarrow> Inr r
       | None \<Rightarrow> if gs = undefined_shape then Inl InternalException
                 else if has_invalid_element n dm then Inr invalidElements else Inr gs)"
    using gs res le
    by (cases gs) (auto simp: CheckInput_DistMat_def split: option.splits)
  have "res = None"
  proof (cases res)
    case (Some r)
    with check_rows_results res have "r = tooLarge \<or> r = badShape" by blast
    with tail Some assms show ?thesis by auto
  qed simp
  with tail assms have "gs = sh" and inv: "\<not> has_invalid_element n dm"
    by (auto split: if_splits)
  with gs res \<open>res = None\<close> show "guess_shape n dm = Inr sh" "check_rows sh n dm [0..<n] = Inr None"
    by simp_all
  show "\<not> has_invalid_element n dm" by (rule inv)
qed

lemma CGraph_new_Inr:
  assumes "CGraph_new dm labels = Inr g"
  shows "2 \<le> length dm" "length dm \<le> UINT_MAX" "\<forall>row\<in>set dm. length row = length dm"
    "length labels = length dm"
    "\<exists>adj. make_adjacency (length dm) dm = Inr adj \<and>
       g = \<lparr> m_Order = length dm, m_InternalToExternal = labels,
             m_ExternalToInternal = store_labels labels, m_DistanceMatrix = dm,
             m_AdjacencyMatrix = adj, m_DijkstraStartVertices = [],
             m_DijkstraOutputRoutes = [], m_DijkstraShortestDistances = [] \<rparr>"
proof -
  define n where "n = length dm mod 2 ^ 32"
  obtain sh where sh: "CheckInput_DistMat n dm = Inr sh"
    "sh \<in> {square, lowerTriangular, upperTriangular}"
    using assms unfolding CGraph_new_def n_def [symmetric] Let_def
    by (cases "CheckInput_DistMat n dm")
       (auto split: CGraph_DistMatCheckResult.splits)
  note acc = CheckInput_accepts [OF sh]
  have n: "n = length dm"
    using acc(1) by (simp add: n_def UINT_MAX_def)
  obtain M where fin: "finish_construction dm labels n M = Inr g" "sh = square \<longrightarrow> M = dm"
    using assms sh unfolding CGraph_new_def n_def [symmetric] Let_def
    by (auto split: sum.splits)
  from fin(1) obtain adj where adj: "make_adjacency n dm = Inr adj"
    and lab: "n = length labels"
    and g: "g = \<lparr> m_Order = n, m_InternalToExternal = labels,
             m_ExternalToInternal = store_labels labels, m_DistanceMatrix = M,
             m_AdjacencyMatrix = adj, m_DijkstraStartVertices = [],
             m_DijkstraOutputRoutes = [], m_DijkstraShortestDistances = [] \<rparr>"
    by (auto simp: finish_construction_def split: if_splits sum.splits)
  have two: "2 \<le> length dm"
    using guess_shape_Inr_rows [OF acc(2)] sh(2) by auto
  have wide: "n \<le> length (dm ! i)" if "i < n" for i
  proof -
    have "n - 1 < n" using two n by simp
    from make_adjacency_Inr(3) [OF adj that this] two n show ?thesis by auto
  qed
  have gs: "guess_shape n dm =
     Inr (if length (dm ! 0) = n \<and> length (dm ! 1) = n then square
          else if length (dm ! 0) = 1 \<and> length (dm ! 1) = 2 then lowerTriangular
          else if length (dm ! 0) = n \<and> length (dm ! 1) = n - 1 then upperTriangular
          else badShape)"
    using guess_shape_two_rows [of dm n] two n acc(1) by simp
  have "0 < n" "1 < n"
    using two n by linarith+
  then have w: "n \<le> length (dm ! 0)" "n \<le> length (dm ! 1)"
    using wide by blast+
  have "sh = square"
    using gs acc(2) w \<open>1 < n\<close> sh(2)
    by (auto split: if_splits)
  with fin(2) have M: "M = dm" by simp
  have "length row = length dm" if "row \<in> set dm" for row
  proof -
    from that obtain i where i: "i < length dm" "row = dm ! i"
      by (auto simp: in_set_conv_nth)
    with check_rows_square_None [OF acc(3) [unfolded \<open>sh = square\<close>], of i] n
    show ?thesis by simp
  qed
  then show "\<forall>row\<in>set dm. length row = length dm" by blast
  show "2 \<le> length dm" by (rule two)
  show "length dm \<le> UINT_MAX" by (rule acc(1))
  show "length labels = length dm" using lab n by simp
  show "\<exists>adj. make_adjacency (length dm) dm = Inr adj \<and>
       g = \<lparr> m_Order = length dm, m_InternalToExternal = labels,
             m_ExternalToInternal = store_labels labels, m_DistanceMatrix = dm,
             m_AdjacencyMatrix = adj, m_DijkstraStartVertices = [],
             m_DijkstraOutputRoutes = [], m_DijkstraShortestDistances = [] \<rparr>"
    using adj g M n by simp
qed

section \<open>The single-source computation in general\<close>

subsection \<open>The scan, the relaxation and the main loop\<close>

lemma scan_fold_keeps:
  assumes "\<not> known ! fst acc" "sd ! fst acc \<noteq> - 1" "snd acc = sd ! fst acc"
  shows "\<not> known ! fst (fold (scan_step sd known) is acc)
     \<and> sd ! fst (fold (scan_step sd known) is acc) \<noteq> - 1
     \<and> (fst (fold (scan_step sd known) is acc) = fst acc
          \<or> fst (fold (scan_step sd known) is acc) \<in> set is)"
  using assms
proof (induction "is" arbitrary: acc)
  case Nil
  then show ?case by simp
next
  case (Cons i rest)
  let ?acc = "scan_step sd known i acc"
  have "\<not> known ! fst ?acc" "sd ! fst ?acc \<noteq> - 1" "snd ?acc = sd ! fst ?acc"
    "fst ?acc = fst acc \<or> fst ?acc = i"
    using Cons.prems by (auto simp: scan_step_def)
  with Cons.IH [of ?acc] show ?case by auto
qed

lemma scan_fold_finds:
  assumes "snd acc = - 1" "\<exists>i\<in>set is. \<not> known ! i \<and> sd ! i \<noteq> - 1"
  shows "\<not> known ! fst (fold (scan_step sd known) is acc)
     \<and> sd ! fst (fold (scan_step sd known) is acc) \<noteq> - 1
     \<and> fst (fold (scan_step sd known) is acc) \<in> set is"
  using assms
proof (induction "is" arbitrary: acc)
  case Nil
  then show ?case by simp
next
  case (Cons i rest)
  show ?case
  proof (cases "\<not> known ! i \<and> sd ! i \<noteq> - 1")
    case True
    with Cons.prems(1) have step: "scan_step sd known i acc = (i, sd ! i)"
      by (simp add: scan_step_def)
    from scan_fold_keeps [of known "(i, sd ! i)" sd rest] True step show ?thesis
      by auto
  next
    case False
    then have step: "scan_step sd known i acc = acc"
      by (auto simp: scan_step_def)
    from False Cons.prems(2) have "\<exists>i\<in>set rest. \<not> known ! i \<and> sd ! i \<noteq> - 1"
      by auto
    from Cons.IH [OF Cons.prems(1) this] step show ?thesis
      by simp
  qed
qed

lemma find_next_candidate:
  assumes "\<exists>i<n. \<not> known ! i \<and> sd ! i \<noteq> - 1"
  shows "find_next n sd known < n" "\<not> known ! find_next n sd known"
    "sd ! find_next n sd known \<noteq> - 1"
proof -
  from assms have "\<exists>i\<in>set [0..<n]. \<not> known ! i \<and> sd ! i \<noteq> - 1"
    by auto
  from scan_fold_finds [of "(UINT_MAX, - 1)" "[0..<n]" known sd, OF _ this]
  show "find_next n sd known < n" "\<not> known ! find_next n sd known"
    "sd ! find_next n sd known \<noteq> - 1"
    by (simp_all add: find_next_def)
qed

lemma scan_fold_none:
  assumes "\<forall>i\<in>set is. known ! i \<or> sd ! i = - 1"
  shows "fold (scan_step sd known) is acc = acc"
  using assms by (induction "is" arbitrary: acc) (auto simp: scan_step_def)

lemma find_next_none:
  assumes "\<forall>i<n. known ! i \<or> sd ! i = - 1"
  shows "find_next n sd known = UINT_MAX"
  using scan_fold_none [of "[0..<n]" known sd "(UINT_MAX, - 1)"] assms
  by (simp add: find_next_def)

lemma well_formed_reads:
  assumes "well_formed g" "i < m_Order g" "j < m_Order g"
  shows "vget2 (m_AdjacencyMatrix g) i j = Inr (m_AdjacencyMatrix g ! i ! j)"
    and "vget2 (m_DistanceMatrix g) i j = Inr (m_DistanceMatrix g ! i ! j)"
  using assms by (auto simp: well_formed_def vget2_def vget_def list_all_length)

lemma relax_total:
  assumes "well_formed g" "nc < m_Order g" "length sd = m_Order g"
    "set is \<subseteq> {..<m_Order g}"
  shows "\<exists>sd' rt'. relax g nc known is (sd, rt) = Inr (sd', rt')
     \<and> length sd' = length sd \<and> (\<forall>j. known ! j \<longrightarrow> sd' ! j = sd ! j)"
  using assms(3,4)
proof (induction "is" arbitrary: sd rt)
  case Nil
  then show ?case by simp
next
  case (Cons i rest)
  from Cons.prems have i: "i < m_Order g" and rest: "set rest \<subseteq> {..<m_Order g}"
    by auto
  note rd = well_formed_reads [OF assms(1) assms(2) i]
  have via: "via_dist g nc sd i = Inr (dadd (sd ! nc) (m_DistanceMatrix g ! nc ! i))"
    using Cons.prems(1) assms(2) rd(2) by (simp add: via_dist_def vget_def)
  show ?case
  proof (cases "known ! i")
    case True
    with Cons.IH [OF Cons.prems(1) rest, of rt] show ?thesis by simp
  next
    case False
    let ?d = "dadd (sd ! nc) (m_DistanceMatrix g ! nc ! i)"
    have len: "length (sd[i := ?d]) = m_Order g"
      using Cons.prems(1) by simp
    from Cons.IH [OF len rest, of "rt[i := nc]"]
    obtain sd' rt' where upd: "relax g nc known rest (sd[i := ?d], rt[i := nc]) = Inr (sd', rt')"
      "length sd' = length sd" "\<forall>j. known ! j \<longrightarrow> sd' ! j = (sd[i := ?d]) ! j"
      by auto
    from upd(3) False have keep: "\<forall>j. known ! j \<longrightarrow> sd' ! j = sd ! j"
      by (metis nth_list_update_neq)
    from Cons.IH [OF Cons.prems(1) rest, of rt]
    obtain sd2 rt2 where same: "relax g nc known rest (sd, rt) = Inr (sd2, rt2)"
      "length sd2 = length sd" "\<forall>j. known ! j \<longrightarrow> sd2 ! j = sd ! j"
      by auto
    show ?thesis
      using False rd(1) via upd(1,2) keep same
      by (cases "m_AdjacencyMatrix g ! nc ! i"; cases "sd ! i = - 1";
          cases "dadd (sd ! nc) (m_DistanceMatrix g ! nc ! i) < sd ! i") auto
  qed
qed

lemma unknown_card_less:
  assumes "nc < n" "\<not> known ! nc" "length known = n"
  shows "card {i. i < n \<and> \<not> known[nc := True] ! i} < card {i. i < n \<and> \<not> known ! i}"
proof -
  have eq: "{i. i < n \<and> \<not> known[nc := True] ! i} = {i. i < n \<and> \<not> known ! i} - {nc}"
    using assms by (auto simp: nth_list_update)
  have "nc \<in> {i. i < n \<and> \<not> known ! i}" "finite {i. i < n \<and> \<not> known ! i}"
    using assms by auto
  then show ?thesis
    unfolding eq by (intro card_Diff1_less)
qed

lemma Dijkstra_loop_total:
  assumes "well_formed g" "length sd = m_Order g" "length known = m_Order g"
    "\<exists>i<m_Order g. \<not> known ! i \<and> sd ! i \<noteq> - 1" "known ! s"
  shows "\<exists>sd' rt'. Dijkstra_loop g sd rt known = Some (Inr (sd', rt'))
     \<and> length sd' = m_Order g \<and> sd' ! s = sd ! s"
  using assms(2-5)
proof (induction "card {i. i < m_Order g \<and> \<not> known ! i}" arbitrary: sd rt known
    rule: less_induct)
  case less
  let ?n = "m_Order g"
  let ?nc = "find_next ?n sd known"
  note nc = find_next_candidate [OF less.prems(3)]
  have sub: "set [0..<?n] \<subseteq> {..<?n}"
    by auto
  from relax_total [OF assms(1) nc(1) less.prems(1) sub, of known rt]
  obtain sd' rt' where rel: "relax g ?nc known [0..<?n] (sd, rt) = Inr (sd', rt')"
    "length sd' = length sd" "\<forall>j. known ! j \<longrightarrow> sd' ! j = sd ! j"
    by auto
  let ?known = "known[?nc := True]"
  have in_range: "?nc < length known"
    using nc(1) less.prems(2) by simp
  have step: "Dijkstra_loop g sd rt known =
      (if more_vertices ?n sd' ?known then Dijkstra_loop g sd' rt' ?known
       else Some (Inr (sd', rt')))"
    by (subst Dijkstra_loop.simps) (simp add: rel in_range)
  show ?case
  proof (cases "more_vertices ?n sd' ?known")
    case False
    with step rel less.prems show ?thesis by simp
  next
    case True
    then have more: "\<exists>i<?n. \<not> ?known ! i \<and> sd' ! i \<noteq> - 1"
      by (auto simp: more_vertices_def list_ex_iff)
    have smaller: "card {i. i < ?n \<and> \<not> ?known ! i} < card {i. i < ?n \<and> \<not> known ! i}"
      by (rule unknown_card_less [OF nc(1) nc(2) less.prems(2)])
    have ks: "?known ! s"
      using less.prems(4) by (metis nth_list_update_neq nc(2))
    from less.hyps [OF smaller _ _ more ks, of rt'] rel(2) less.prems(1,2)
    obtain sd2 rt2 where "Dijkstra_loop g sd' rt' ?known = Some (Inr (sd2, rt2))"
      "length sd2 = ?n" "sd2 ! s = sd' ! s"
      by auto
    with step True rel(3) less.prems(4) show ?thesis by simp
  qed
qed

lemma Dijkstra_loop_stuck:
  assumes "length known = m_Order g" "m_Order g \<le> UINT_MAX"
    "\<forall>i<m_Order g. known ! i \<or> sd ! i = - 1"
  shows "\<exists>e. Dijkstra_loop g sd rt known = Some (Inl e)"
proof -
  have nc: "find_next (m_Order g) sd known = UINT_MAX"
    by (rule find_next_none [OF assms(3)])
  show ?thesis
    using assms(1,2)
    by (subst Dijkstra_loop.simps) (auto simp: nc split: sum.splits)
qed

subsection \<open>InternalDijkstra\<close>

lemma Dijkstra_init_total:
  assumes "well_formed g" "s < m_Order g" "length sd = m_Order g" "set is \<subseteq> {..<m_Order g}"
  shows "\<exists>sd' rt'. Dijkstra_init g s is (sd, rt) = Inr (sd', rt')
     \<and> length sd' = m_Order g
     \<and> (\<forall>i<m_Order g. sd' ! i =
           (if i \<in> set is \<and> (i = s \<or> m_AdjacencyMatrix g ! s ! i)
            then m_DistanceMatrix g ! s ! i else sd ! i))"
  using assms(3,4)
proof (induction "is" arbitrary: sd rt)
  case Nil
  then show ?case by simp
next
  case (Cons i rest)
  from Cons.prems have i: "i < m_Order g" and rest: "set rest \<subseteq> {..<m_Order g}"
    by auto
  note rd = well_formed_reads [OF assms(1) assms(2) i]
  let ?d = "m_DistanceMatrix g ! s ! i"
  show ?case
  proof (cases "i = s \<or> m_AdjacencyMatrix g ! s ! i")
    case False
    with Cons.IH [OF Cons.prems(1) rest, of rt] rd show ?thesis
      by auto
  next
    case True
    have len: "length (sd[i := ?d]) = m_Order g"
      using Cons.prems(1) by simp
    from Cons.IH [OF len rest, of "rt[i := s]"]
    obtain sd' rt' where upd: "Dijkstra_init g s rest (sd[i := ?d], rt[i := s]) = Inr (sd', rt')"
      "length sd' = m_Order g"
      "\<forall>j<m_Order g. sd' ! j =
           (if j \<in> set rest \<and> (j = s \<or> m_AdjacencyMatrix g ! s ! j)
            then m_DistanceMatrix g ! s ! j else (sd[i := ?d]) ! j)"
      by auto
    have run: "Dijkstra_init g s (i # rest) (sd, rt) = Inr (sd', rt')"
      using True rd upd(1) by auto
    have "sd' ! j = (if j \<in> set (i # rest) \<and> (j = s \<or> m_AdjacencyMatrix g ! s ! j)
            then m_DistanceMatrix g ! s ! j else sd ! j)" if "j < m_Order g" for j
    proof (cases "j = i")
      case True
      with upd(3) that \<open>i = s \<or> m_AdjacencyMatrix g ! s ! i\<close> Cons.prems(1) show ?thesis
        by auto
    next
      case False
      with upd(3) that show ?thesis
        by auto
    qed
    with run upd(2) show ?thesis by blast
  qed
qed

lemma InternalDijkstra_cached:
  assumes "s < m_Order g" "map_of (m_DijkstraStartVertices g) s = Some k"
  shows "InternalDijkstra g s = Some (Inr (k, g))"
  using assms by (simp add: InternalDijkstra_def)

lemma InternalDijkstra_fresh:
  assumes "well_formed g" "s < m_Order g" "map_of (m_DijkstraStartVertices g) s = None"
    "i < m_Order g" "i \<noteq> s" "m_AdjacencyMatrix g ! s ! i" "m_DistanceMatrix g ! s ! i \<noteq> - 1"
  shows "\<exists>sd rt. InternalDijkstra g s = Some (Inr (save_results g s sd rt))
     \<and> length sd = m_Order g \<and> sd ! s = m_DistanceMatrix g ! s ! s"
proof -
  let ?n = "m_Order g"
  have sub: "set [0..<?n] \<subseteq> {..<?n}" by auto
  from Dijkstra_init_total [OF assms(1,2) _ sub, of "replicate ?n (- 1)" "replicate ?n UINT_MAX"]
  obtain sd0 rt0 where init: "Dijkstra_init g s [0..<?n] (replicate ?n (- 1), replicate ?n UINT_MAX)
       = Inr (sd0, rt0)" "length sd0 = ?n"
    "\<forall>j<?n. sd0 ! j = (if j \<in> set [0..<?n] \<and> (j = s \<or> m_AdjacencyMatrix g ! s ! j)
            then m_DistanceMatrix g ! s ! j else replicate ?n (- 1) ! j)"
    by auto
  let ?known = "(replicate ?n False)[s := True]"
  have sd0_s: "sd0 ! s = m_DistanceMatrix g ! s ! s" and sd0_i: "sd0 ! i \<noteq> - 1"
    using init(3) assms by auto
  have cand: "\<exists>j<?n. \<not> ?known ! j \<and> sd0 ! j \<noteq> - 1"
    using assms(4,5) sd0_i by (intro exI [of _ i]) simp
  have ks: "?known ! s" using assms(2) by simp
  from Dijkstra_loop_total [OF assms(1) init(2) _ cand ks, of "rt0[s := s]"]
  obtain sd rt where loop: "Dijkstra_loop g sd0 (rt0[s := s]) ?known = Some (Inr (sd, rt))"
    "length sd = ?n" "sd ! s = sd0 ! s"
    by auto
  have "InternalDijkstra g s = Some (Inr (save_results g s sd rt))"
    using assms(2,3) init(1) loop(1) by (simp add: InternalDijkstra_def)
  with loop sd0_s show ?thesis by auto
qed

lemma InternalDijkstra_Inr:
  assumes "well_formed g" "InternalDijkstra g s = Some (Inr (k, g'))"
  shows "s < m_Order g"
    and "(map_of (m_DijkstraStartVertices g) s = Some k \<and> g' = g)
       \<or> (map_of (m_DijkstraStartVertices g) s = None
          \<and> (\<exists>sd rt. (k, g') = save_results g s sd rt
                \<and> length sd = m_Order g \<and> sd ! s = m_DistanceMatrix g ! s ! s))"
proof -
  let ?n = "m_Order g"
  show s: "s < ?n"
    using assms(2) by (auto simp: InternalDijkstra_def split: if_splits)
  show "(map_of (m_DijkstraStartVertices g) s = Some k \<and> g' = g)
       \<or> (map_of (m_DijkstraStartVertices g) s = None
          \<and> (\<exists>sd rt. (k, g') = save_results g s sd rt
                \<and> length sd = m_Order g \<and> sd ! s = m_DistanceMatrix g ! s ! s))"
  proof (cases "map_of (m_DijkstraStartVertices g) s")
    case (Some k')
    with assms(2) s show ?thesis by (simp add: InternalDijkstra_def)
  next
    case None
    have sub: "set [0..<?n] \<subseteq> {..<?n}" by auto
    from Dijkstra_init_total [OF assms(1) s _ sub, of "replicate ?n (- 1)" "replicate ?n UINT_MAX"]
    obtain sd0 rt0 where init: "Dijkstra_init g s [0..<?n] (replicate ?n (- 1), replicate ?n UINT_MAX)
       = Inr (sd0, rt0)" "length sd0 = ?n"
      "\<forall>j<?n. sd0 ! j = (if j \<in> set [0..<?n] \<and> (j = s \<or> m_AdjacencyMatrix g ! s ! j)
            then m_DistanceMatrix g ! s ! j else replicate ?n (- 1) ! j)"
      by auto
    let ?known = "(replicate ?n False)[s := True]"
    have sd0_s: "sd0 ! s = m_DistanceMatrix g ! s ! s"
      using init(3) s by auto
    have ks: "?known ! s" using s by simp
    from assms(2) s None init(1)
    obtain sd rt where loop: "Dijkstra_loop g sd0 (rt0[s := s]) ?known = Some (Inr (sd, rt))"
      and res: "(k, g') = save_results g s sd rt"
      by (auto simp: InternalDijkstra_def split: option.splits sum.splits)
    have cand: "\<exists>j<?n. \<not> ?known ! j \<and> sd0 ! j \<noteq> - 1"
    proof (rule ccontr)
      assume "\<not> ?thesis"
      then have "\<forall>j<?n. ?known ! j \<or> sd0 ! j = - 1" by blast
      from Dijkstra_loop_stuck [OF _ _ this, of "rt0[s := s]"] assms(1) loop
      show False by (auto simp: well_formed_def)
    qed
    from Dijkstra_loop_total [OF assms(1) init(2) _ cand ks, of "rt0[s := s]"] loop
    have "length sd = ?n" "sd ! s = sd0 ! s"
      by auto
    with None res sd0_s show ?thesis by auto
  qed
qed

section \<open>Queries and the cache\<close>

subsection \<open>The shape of a call that returns\<close>

lemma save_results_eq:
  "save_results g s sd rt =
     (length (m_DijkstraOutputRoutes g),
      g \<lparr> m_DijkstraOutputRoutes := m_DijkstraOutputRoutes g @ [rt],
          m_DijkstraShortestDistances := m_DijkstraShortestDistances g @ [sd],
          m_DijkstraStartVertices :=
            AList.update s (length (m_DijkstraOutputRoutes g)) (m_DijkstraStartVertices g) \<rparr>)"
  by (simp add: save_results_def Let_def)

lemma InternalDijkstra_result:
  assumes "InternalDijkstra g s = Some (Inr (k, g'))"
  shows "s < m_Order g"
    and "map_of (m_DijkstraStartVertices g) s = Some k' \<Longrightarrow> k = k' \<and> g' = g"
    and "map_of (m_DijkstraStartVertices g) s = None \<Longrightarrow> \<exists>sd rt. (k, g') = save_results g s sd rt"
proof -
  show "s < m_Order g"
    using assms by (auto simp: InternalDijkstra_def split: if_splits)
  show "k = k' \<and> g' = g" if "map_of (m_DijkstraStartVertices g) s = Some k'"
    using assms that by (auto simp: InternalDijkstra_def split: if_splits)
  show "\<exists>sd rt. (k, g') = save_results g s sd rt" if "map_of (m_DijkstraStartVertices g) s = None"
    using assms that
    by (auto simp: InternalDijkstra_def split: if_splits option.splits sum.splits) metis
qed

lemma InternalDijkstra_caches:
  assumes "InternalDijkstra g s = Some (Inr (k, g'))"
  shows "map_of (m_DijkstraStartVertices g') s = Some k"
proof (cases "map_of (m_DijkstraStartVertices g) s")
  case None
  from InternalDijkstra_result(3) [OF assms None] show ?thesis
    by (auto simp: save_results_eq update_conv')
next
  case (Some k')
  with InternalDijkstra_result(2) [OF assms Some] show ?thesis by simp
qed

lemma map_subscript_cached:
  "map_of m v = Some k \<Longrightarrow> map_subscript m v = (k, m)"
  by (simp add: map_subscript_def)

lemma unwind_cached:
  assumes "map_of (m_DijkstraStartVertices g) (if b then s else e) = Some k"
  shows "unwind b g s e =
     (case walk_parents (m_DijkstraOutputRoutes g) k (if b then s else e) [if b then e else s] of
        None \<Rightarrow> None
      | Some (Inl err) \<Rightarrow> Some (Inl err)
      | Some (Inr route) \<Rightarrow>
          (case vget2 (m_DijkstraShortestDistances g) k (if b then e else s) of
             Inl err \<Rightarrow> Some (Inl err)
           | Inr d \<Rightarrow> Some (Inr (d, if b then rev route else route, g))))"
  using assms
  by (cases b) (simp_all add: unwind_def map_subscript_cached cong: option.case_cong sum.case_cong)

lemma unwind_cached_state:
  assumes "cached g (if b then s else e)" "unwind b g s e = Some (Inr (d, r, g'))"
  shows "g' = g"
proof -
  from assms(1) obtain k where "map_of (m_DijkstraStartVertices g) (if b then s else e) = Some k"
    by (auto simp: cached_def)
  from assms(2) [unfolded unwind_cached [OF this]] show ?thesis
    by (auto split: option.splits sum.splits)
qed

lemma walk_parents_done: "walk_parents routes k v [v] = Some (Inr [v])"
  by (subst walk_parents.simps) simp

lemma unwind_same_vertex:
  assumes "cached g v"
  shows "unwind True g v v = unwind False g v v"
proof -
  from assms obtain k where k: "map_of (m_DijkstraStartVertices g) v = Some k"
    by (auto simp: cached_def)
  show ?thesis
    using unwind_cached [of g True v v k] unwind_cached [of g False v v k] k
    by (simp add: walk_parents_done cong: sum.case_cong)
qed

text \<open>The shape of a call of InternalShortestDistance that returns.\<close>

lemma InternalShortestDistance_cases:
  assumes "InternalShortestDistance g s e p = Some (Inr (d, r, g'))"
  obtains (use_end) "cached g e" "g' = g" "unwind False g s e = Some (Inr (d, r, g))"
  | (use_start) "\<not> cached g e" "cached g s" "g' = g" "unwind True g s e = Some (Inr (d, r, g))"
  | (fresh) k sd rt where "\<not> cached g e" "\<not> cached g s"
      "InternalDijkstra g (if p then s else e) = Some (Inr (k, g'))"
      "(k, g') = save_results g (if p then s else e) sd rt"
      "unwind p g' s e = Some (Inr (d, r, g'))"
proof (cases "cached g e")
  case True
  with assms have u: "unwind False g s e = Some (Inr (d, r, g'))"
    by (simp add: InternalShortestDistance_def)
  with unwind_cached_state [of g False s e d r g'] True have "g' = g" by simp
  with u True show ?thesis by (intro use_end) simp_all
next
  case False
  show ?thesis
  proof (cases "cached g s")
    case True
    with assms False have u: "unwind True g s e = Some (Inr (d, r, g'))"
      by (simp add: InternalShortestDistance_def)
    with unwind_cached_state [of g True s e d r g'] True have "g' = g" by simp
    with u True False show ?thesis by (intro use_start) simp_all
  next
    case ns: False
    let ?root = "if p then s else e"
    from assms False ns obtain k g1 where
      dj: "InternalDijkstra g ?root = Some (Inr (k, g1))"
      and u: "unwind p g1 s e = Some (Inr (d, r, g'))"
      by (cases p) (auto simp: InternalShortestDistance_def split: option.splits sum.splits)
    from InternalDijkstra_caches [OF dj] have "cached g1 ?root"
      by (simp add: cached_def)
    with unwind_cached_state [of g1 p s e d r g'] u have g': "g' = g1"
      by (cases p) simp_all
    have "map_of (m_DijkstraStartVertices g) ?root = None"
      using False ns by (cases p) (simp_all add: cached_def)
    from InternalDijkstra_result(3) [OF dj this]
    obtain sd rt where "(k, g1) = save_results g ?root sd rt" by blast
    with dj u g' False ns show ?thesis
      by (intro fresh [of k sd rt]) simp_all
  qed
qed

lemma ShortestDistance_Inr:
  assumes "ShortestDistance g a b p = Some (Inr (d, r, g'))"
  obtains s e r0 where "ExternalToInternal g a = Inr s" "ExternalToInternal g b = Inr e"
    "InternalShortestDistance g s e p = Some (Inr (d, r0, g'))"
    "InternalToExternal_all g' r0 = Inr r"
  using assms
  by (auto simp: ShortestDistance_def split: sum.splits option.splits)

lemma same_graph_refl: "same_graph g g"
  by (simp add: same_graph_def)

lemma same_graph_trans: "same_graph g g1 \<Longrightarrow> same_graph g1 g2 \<Longrightarrow> same_graph g g2"
  by (simp add: same_graph_def)

lemma same_graph_save: "same_graph g (snd (save_results g s sd rt))"
  by (simp add: same_graph_def save_results_eq)

lemma InternalShortestDistance_same_graph:
  assumes "InternalShortestDistance g s e p = Some (Inr (d, r, g'))"
  shows "same_graph g g'"
  using assms
proof (cases rule: InternalShortestDistance_cases)
  case (fresh k sd rt)
  from arg_cong [OF fresh(4), of snd] same_graph_save [of g "if p then s else e" sd rt]
  show ?thesis by simp
qed (simp_all add: same_graph_refl)

subsection \<open>Invariants of the reachable states\<close>

lemma well_formed_same_graph: "same_graph g g' \<Longrightarrow> well_formed g \<Longrightarrow> well_formed g'"
  by (simp add: same_graph_def well_formed_def)

lemma cache_ok_save:
  assumes "cache_ok g" "map_of (m_DijkstraStartVertices g) src = None" "src < m_Order g"
    "length sd = m_Order g" "sd ! src = m_DistanceMatrix g ! src ! src"
  shows "cache_ok (snd (save_results g src sd rt))"
proof -
  let ?g = "snd (save_results g src sd rt)"
  let ?k = "length (m_DijkstraOutputRoutes g)"
  have len: "length (m_DijkstraOutputRoutes g) = length (m_DijkstraShortestDistances g)"
    using assms(1) by (simp add: cache_ok_def)
  have "s < m_Order ?g \<and> k < length (m_DijkstraShortestDistances ?g)
      \<and> length (m_DijkstraShortestDistances ?g ! k) = m_Order ?g
      \<and> m_DijkstraShortestDistances ?g ! k ! s = m_DistanceMatrix ?g ! s ! s"
    if "map_of (m_DijkstraStartVertices ?g) s = Some k" for s k
  proof (cases "s = src")
    case True
    with that have "k = ?k"
      by (simp add: save_results_eq update_conv')
    with True assms(3,4,5) len show ?thesis
      by (simp add: save_results_eq)
  next
    case False
    with that have "map_of (m_DijkstraStartVertices g) s = Some k"
      by (simp add: save_results_eq update_conv')
    with assms(1) have "s < m_Order g" "k < length (m_DijkstraShortestDistances g)"
      "length (m_DijkstraShortestDistances g ! k) = m_Order g"
      "m_DijkstraShortestDistances g ! k ! s = m_DistanceMatrix g ! s ! s"
      by (simp_all add: cache_ok_def)
    then show ?thesis
      by (simp add: save_results_eq nth_append)
  qed
  with len show ?thesis
    by (simp add: cache_ok_def save_results_eq)
qed

lemma InternalShortestDistance_cache_ok:
  assumes "well_formed g" "cache_ok g" "InternalShortestDistance g s e p = Some (Inr (d, r, g'))"
  shows "cache_ok g'"
  using assms(3)
proof (cases rule: InternalShortestDistance_cases)
  case (fresh k sd rt)
  let ?src = "if p then s else e"
  have none: "map_of (m_DijkstraStartVertices g) ?src = None"
    using fresh(1,2) by (cases p) (simp_all add: cached_def)
  from InternalDijkstra_Inr [OF assms(1) fresh(3)] none
  obtain sd' rt' where lt: "?src < m_Order g" and eq: "(k, g') = save_results g ?src sd' rt'"
    and sd': "length sd' = m_Order g" "sd' ! ?src = m_DistanceMatrix g ! ?src ! ?src"
    by auto
  from eq have "g' = snd (save_results g ?src sd' rt')"
    by (metis snd_conv)
  with cache_ok_save [OF assms(2) none lt sd', of rt'] show ?thesis
    by simp
qed (simp_all add: assms(2))

lemma reachable_invariants:
  assumes "reachable g0 g" "well_formed g0" "cache_ok g0"
  shows "same_graph g0 g \<and> cache_ok g"
  using assms
proof (induction rule: reachable.induct)
  case reachable_refl
  then show ?case by (simp add: same_graph_refl)
next
  case (reachable_step g1 a b p d r g2)
  then have sg: "same_graph g0 g1" and ok: "cache_ok g1" by simp_all
  from reachable_step.hyps(2) obtain s e r0 where
    isd: "InternalShortestDistance g1 s e p = Some (Inr (d, r0, g2))"
    by (rule ShortestDistance_Inr)
  have wf: "well_formed g1"
    by (rule well_formed_same_graph [OF sg reachable_step.prems(1)])
  from InternalShortestDistance_same_graph [OF isd] sg
    InternalShortestDistance_cache_ok [OF wf ok isd]
  show ?case by (blast intro: same_graph_trans)
qed

lemma CGraph_new_invariants:
  assumes "CGraph_new dm labels = Inr g"
  shows "well_formed g" "cache_ok g"
proof -
  note c = CGraph_new_Inr [OF assms]
  from c(5) obtain adj where adj: "make_adjacency (length dm) dm = Inr adj"
    and g: "g = \<lparr> m_Order = length dm, m_InternalToExternal = labels,
             m_ExternalToInternal = store_labels labels, m_DistanceMatrix = dm,
             m_AdjacencyMatrix = adj, m_DijkstraStartVertices = [],
             m_DijkstraOutputRoutes = [], m_DijkstraShortestDistances = [] \<rparr>"
    by blast
  note a = make_adjacency_Inr [OF adj]
  show "well_formed g"
    using c(2,3) a(1,2) by (simp add: well_formed_def g list_all_length)
  show "cache_ok g"
    by (simp add: cache_ok_def g)
qed

lemma store_labels_fold_Some:
  assumes "map_of (fold (\<lambda>i m. AList.update (labels ! i) i m) is m0) v = Some k"
  shows "(k \<in> set is \<and> labels ! k = v) \<or> map_of m0 v = Some k"
  using assms
proof (induction "is" arbitrary: m0)
  case Nil
  then show ?case by simp
next
  case (Cons i rest)
  from Cons.IH [of "AList.update (labels ! i) i m0"] Cons.prems
  show ?case
    by (auto simp: update_conv' split: if_splits)
qed

lemma store_labels_fold_dom:
  assumes "map_of m0 v \<noteq> None \<or> (\<exists>i\<in>set is. labels ! i = v)"
  shows "map_of (fold (\<lambda>i m. AList.update (labels ! i) i m) is m0) v \<noteq> None"
  using assms
proof (induction "is" arbitrary: m0)
  case Nil
  then show ?case by simp
next
  case (Cons i rest)
  have "map_of (AList.update (labels ! i) i m0) v \<noteq> None \<or> (\<exists>j\<in>set rest. labels ! j = v)"
    using Cons.prems by (auto simp: update_conv')
  from Cons.IH [OF this] show ?case by simp
qed

lemma store_labels_lookup:
  assumes "v \<in> set labels"
  shows "\<exists>i<length labels. labels ! i = v \<and> map_of (store_labels labels) v = Some i"
proof -
  from assms have "\<exists>i\<in>set [0..<length labels]. labels ! i = v"
    by (auto simp: in_set_conv_nth)
  from store_labels_fold_dom [of "[]" v "[0..<length labels]" labels] this
  obtain k where k: "map_of (store_labels labels) v = Some k"
    by (auto simp: store_labels_def)
  from store_labels_fold_Some [OF k [unfolded store_labels_def]]
  have "k < length labels" "labels ! k = v" by auto
  with k show ?thesis by blast
qed

subsection \<open>A query from a vertex to itself\<close>

lemma self_query_internal:
  assumes wf: "well_formed g" and ok: "cache_ok g" and i: "i < m_Order g"
    and nb: "j < m_Order g" "j \<noteq> i" "m_AdjacencyMatrix g ! i ! j"
      "m_DistanceMatrix g ! i ! j \<noteq> - 1"
  shows "\<exists>g'. InternalShortestDistance g i i p
      = Some (Inr (m_DistanceMatrix g ! i ! i, [i], g')) \<and> same_graph g g'"
proof (cases "map_of (m_DijkstraStartVertices g) i")
  case (Some k)
  with ok have k: "k < length (m_DijkstraShortestDistances g)"
    "length (m_DijkstraShortestDistances g ! k) = m_Order g"
    "m_DijkstraShortestDistances g ! k ! i = m_DistanceMatrix g ! i ! i"
    by (simp_all add: cache_ok_def)
  have rd: "vget2 (m_DijkstraShortestDistances g) k i = Inr (m_DistanceMatrix g ! i ! i)"
    using k i by (simp add: vget2_def vget_def)
  have "unwind False g i i = Some (Inr (m_DistanceMatrix g ! i ! i, [i], g))"
    using unwind_cached [of g False i i k] Some by (simp add: walk_parents_done rd)
  moreover have "cached g i"
    using Some by (simp add: cached_def)
  ultimately show ?thesis
    by (auto simp: InternalShortestDistance_def same_graph_refl)
next
  case None
  from InternalDijkstra_fresh [OF wf i None nb]
  obtain sd rt where dj: "InternalDijkstra g i = Some (Inr (save_results g i sd rt))"
    and sd: "length sd = m_Order g" "sd ! i = m_DistanceMatrix g ! i ! i"
    by blast
  let ?k = "length (m_DijkstraOutputRoutes g)"
  let ?g = "g \<lparr> m_DijkstraOutputRoutes := m_DijkstraOutputRoutes g @ [rt],
          m_DijkstraShortestDistances := m_DijkstraShortestDistances g @ [sd],
          m_DijkstraStartVertices := AList.update i ?k (m_DijkstraStartVertices g) \<rparr>"
  have sr: "save_results g i sd rt = (?k, ?g)"
    by (simp add: save_results_eq)
  have len: "length (m_DijkstraOutputRoutes g) = length (m_DijkstraShortestDistances g)"
    using ok by (simp add: cache_ok_def)
  have slot: "map_of (m_DijkstraStartVertices ?g) i = Some ?k"
    by (simp add: update_conv')
  have rd: "vget2 (m_DijkstraShortestDistances g @ [sd]) ?k i = Inr (m_DistanceMatrix g ! i ! i)"
    using sd i len by (simp add: vget2_def vget_def)
  have "unwind b ?g i i = Some (Inr (m_DistanceMatrix g ! i ! i, [i], ?g))" for b
    using unwind_cached [of ?g b i i ?k] slot by (simp add: walk_parents_done rd)
  moreover have "\<not> cached g i"
    using None by (simp add: cached_def)
  ultimately have isd: "InternalShortestDistance g i i p
      = Some (Inr (m_DistanceMatrix g ! i ! i, [i], ?g))"
    by (simp add: InternalShortestDistance_def dj sr)
  have "same_graph g ?g"
    by (simp add: same_graph_def)
  with isd show ?thesis by blast
qed

text \<open>
  Claim C4 as stated fails: the matrix with rows 5 1 and 1 5 is square, has no negative
  entry and its labels 10, 20 are distinct, yet the query from 10 to 10 returns the
  distance 5, the diagonal entry, and not 0.
\<close>

theorem C4_counterexample_diagonal_five:
  "CGraph_new [[5, 1], [1, 5]] [10, 20] = Inr diag_graph
   \<and> ShortestDistance diag_graph 10 10 False = Some (Inr (5, [10], diag_graph_10))"
  using diag_new diag_query by simp

text \<open>
  Claim C4, amended. For every graph built from a matrix without negative entries, in
  every state that calls of the public function can bring it to, and for every registered
  label \<open>v\<close>, the query from \<open>v\<close> to \<open>v\<close> returns, whatever \<^verbatim>\<open>preferStartVertex\<close> is, the
  single-vertex route \<open>v\<close> and as distance the diagonal entry of the distance matrix at
  the vertex of \<open>v\<close> (so 0 exactly when the input has 0 there). A graph that was built
  has a square matrix with at least two rows and distinct labels.
\<close>

theorem C4_self_query_returns_diagonal:
  assumes new: "CGraph_new dm labels = Inr g0"
    and nonneg: "\<forall>row\<in>set dm. \<forall>x\<in>set row. 0 \<le> x"
    and reach: "reachable g0 g"
    and v: "v \<in> set labels"
  shows "\<exists>i g'. i < length dm \<and> labels ! i = v
     \<and> ShortestDistance g v v p = Some (Inr (dm ! i ! i, [v], g'))"
proof -
  note c = CGraph_new_Inr [OF new]
  from c(5) obtain adj where adj: "make_adjacency (length dm) dm = Inr adj"
    and g0: "g0 = \<lparr> m_Order = length dm, m_InternalToExternal = labels,
             m_ExternalToInternal = store_labels labels, m_DistanceMatrix = dm,
             m_AdjacencyMatrix = adj, m_DijkstraStartVertices = [],
             m_DijkstraOutputRoutes = [], m_DijkstraShortestDistances = [] \<rparr>"
    by blast
  note inv0 = CGraph_new_invariants [OF new]
  from reachable_invariants [OF reach inv0] have sg: "same_graph g0 g" and ok: "cache_ok g"
    by simp_all
  have wf: "well_formed g"
    by (rule well_formed_same_graph [OF sg inv0(1)])
  have fields: "m_Order g = length dm" "m_InternalToExternal g = labels"
    "m_ExternalToInternal g = store_labels labels" "m_DistanceMatrix g = dm"
    "m_AdjacencyMatrix g = adj"
    using sg by (simp_all add: same_graph_def g0)
  from store_labels_lookup [OF v] obtain i where i: "i < length labels" "labels ! i = v"
    "map_of (store_labels labels) v = Some i"
    by blast
  have i_dm: "i < length dm"
    using i(1) c(4) by simp
  have e2i: "ExternalToInternal g v = Inr i"
    by (simp add: ExternalToInternal_def fields i(3))
  define j :: nat where "j = (if i = 0 then 1 else 0)"
  have j: "j < length dm" "j \<noteq> i"
    using c(1) by (auto simp: j_def)
  have row: "length (dm ! i) = length dm"
    using c(3) i_dm by simp
  have "0 \<le> dm ! i ! j"
    using nonneg i_dm j(1) row by (metis nth_mem)
  moreover from make_adjacency_Inr(3) [OF adj i_dm j(1)]
  have "adj ! i ! j = (0 \<le> dm ! i ! j \<and> i \<noteq> j)"
    by simp
  ultimately have nb: "m_AdjacencyMatrix g ! i ! j" "m_DistanceMatrix g ! i ! j \<noteq> - 1"
    using j(2) by (auto simp: fields)
  from self_query_internal [OF wf ok, of i j p] i_dm j nb
  obtain g' where isd: "InternalShortestDistance g i i p = Some (Inr (dm ! i ! i, [i], g'))"
    and sg': "same_graph g g'"
    by (auto simp: fields)
  have "InternalToExternal_all g' [i] = Inr [v]"
    using sg' i(1,2)
    by (simp add: InternalToExternal_all_def InternalToExternal_def vat_def same_graph_def fields)
  with e2i isd have "ShortestDistance g v v p = Some (Inr (dm ! i ! i, [v], g'))"
    by (simp add: ShortestDistance_def)
  with i_dm i(2) show ?thesis by blast
qed

text \<open>Claim C4, witness: the amended statement at the graph of the counterexample.\<close>

theorem C4_witness_diagonal_graph:
  "\<exists>i g'. i < length [[5, 1], [1, 5 :: real]] \<and> [10, 20] ! i = (10 :: nat)
     \<and> ShortestDistance diag_graph 10 10 True
        = Some (Inr ([[5, 1], [1, 5]] ! i ! i, [10], g'))"
proof -
  have "\<forall>row\<in>set [[5, 1], [1, 5 :: real]]. \<forall>x\<in>set row. 0 \<le> x"
    by simp
  from C4_self_query_returns_diagonal [OF diag_new this reachable_refl, of 10 True]
  show ?thesis by simp
qed

subsection \<open>The cache only grows\<close>

lemma save_results_keeps:
  assumes "map_of (m_DijkstraStartVertices g) src = None"
  shows "map_of (m_DijkstraStartVertices g) s = Some k
      \<Longrightarrow> map_of (m_DijkstraStartVertices (snd (save_results g src sd rt))) s = Some k"
    and "take (length (m_DijkstraOutputRoutes g))
           (m_DijkstraOutputRoutes (snd (save_results g src sd rt))) = m_DijkstraOutputRoutes g"
    and "take (length (m_DijkstraShortestDistances g))
           (m_DijkstraShortestDistances (snd (save_results g src sd rt)))
         = m_DijkstraShortestDistances g"
  using assms by (auto simp: save_results_eq update_conv')

lemma InternalShortestDistance_keeps:
  assumes "InternalShortestDistance g s e p = Some (Inr (d, r, g'))"
  shows "map_of (m_DijkstraStartVertices g) v = Some k
      \<Longrightarrow> map_of (m_DijkstraStartVertices g') v = Some k"
    and "take (length (m_DijkstraOutputRoutes g)) (m_DijkstraOutputRoutes g')
         = m_DijkstraOutputRoutes g"
    and "take (length (m_DijkstraShortestDistances g)) (m_DijkstraShortestDistances g')
         = m_DijkstraShortestDistances g"
proof -
  have "(map_of (m_DijkstraStartVertices g) v = Some k
      \<longrightarrow> map_of (m_DijkstraStartVertices g') v = Some k)
    \<and> take (length (m_DijkstraOutputRoutes g)) (m_DijkstraOutputRoutes g')
         = m_DijkstraOutputRoutes g
    \<and> take (length (m_DijkstraShortestDistances g)) (m_DijkstraShortestDistances g')
         = m_DijkstraShortestDistances g"
    using assms
  proof (cases rule: InternalShortestDistance_cases)
    case (fresh k' sd rt)
    let ?src = "if p then s else e"
    have none: "map_of (m_DijkstraStartVertices g) ?src = None"
      using fresh(1,2) by (cases p) (simp_all add: cached_def)
    from fresh(4) have "g' = snd (save_results g ?src sd rt)"
      by (metis snd_conv)
    with save_results_keeps(1) [OF none, of v k sd rt]
      save_results_keeps(2,3) [OF none, of sd rt] show ?thesis
      by simp
  qed simp_all
  then show "map_of (m_DijkstraStartVertices g) v = Some k
      \<Longrightarrow> map_of (m_DijkstraStartVertices g') v = Some k"
    and "take (length (m_DijkstraOutputRoutes g)) (m_DijkstraOutputRoutes g')
         = m_DijkstraOutputRoutes g"
    and "take (length (m_DijkstraShortestDistances g)) (m_DijkstraShortestDistances g')
         = m_DijkstraShortestDistances g"
    by simp_all
qed

lemma take_take_prefix:
  assumes "take (length xs) ys = xs" "take (length ys) zs = ys"
  shows "take (length xs) zs = xs"
proof -
  have "length xs \<le> length ys"
    using arg_cong [OF assms(1), of length] by simp
  then have "take (length xs) zs = take (length xs) (take (length ys) zs)"
    by (simp add: min_def)
  with assms show ?thesis by simp
qed

lemma reachable_keeps:
  assumes "reachable g g2"
  shows "same_graph g g2
    \<and> (\<forall>v k. map_of (m_DijkstraStartVertices g) v = Some k
          \<longrightarrow> map_of (m_DijkstraStartVertices g2) v = Some k)
    \<and> take (length (m_DijkstraOutputRoutes g)) (m_DijkstraOutputRoutes g2)
         = m_DijkstraOutputRoutes g
    \<and> take (length (m_DijkstraShortestDistances g)) (m_DijkstraShortestDistances g2)
         = m_DijkstraShortestDistances g"
  using assms
proof (induction rule: reachable.induct)
  case reachable_refl
  then show ?case by (simp add: same_graph_refl)
next
  case (reachable_step g1 a b p d r g2)
  from reachable_step.hyps(2) obtain s e r0 where
    isd: "InternalShortestDistance g1 s e p = Some (Inr (d, r0, g2))"
    by (rule ShortestDistance_Inr)
  note k = InternalShortestDistance_keeps [OF isd]
  from reachable_step.IH InternalShortestDistance_same_graph [OF isd]
  have "same_graph g g2"
    by (blast intro: same_graph_trans)
  moreover have "map_of (m_DijkstraStartVertices g2) v = Some k"
    if "map_of (m_DijkstraStartVertices g) v = Some k" for v k
    using reachable_step.IH that k(1) by blast
  moreover have "take (length (m_DijkstraOutputRoutes g)) (m_DijkstraOutputRoutes g2)
         = m_DijkstraOutputRoutes g"
    using reachable_step.IH k(2) by (blast intro: take_take_prefix)
  moreover have "take (length (m_DijkstraShortestDistances g)) (m_DijkstraShortestDistances g2)
         = m_DijkstraShortestDistances g"
    using reachable_step.IH k(3) by (blast intro: take_take_prefix)
  ultimately show ?case by blast
qed

subsection \<open>Calling twice\<close>

lemma InternalShortestDistance_again:
  assumes "InternalShortestDistance g s e p = Some (Inr (d, r, g'))"
  shows "InternalShortestDistance g' s e p = Some (Inr (d, r, g'))"
  using assms
proof (cases rule: InternalShortestDistance_cases)
  case use_end
  with assms show ?thesis by simp
next
  case use_start
  with assms show ?thesis by simp
next
  case (fresh k sd rt)
  let ?src = "if p then s else e"
  from InternalDijkstra_caches [OF fresh(3)] have src: "cached g' ?src"
    by (simp add: cached_def)
  have cache': "m_DijkstraStartVertices g'
      = AList.update ?src (length (m_DijkstraOutputRoutes g)) (m_DijkstraStartVertices g)"
    using arg_cong [OF fresh(4), of snd] by (simp add: save_results_eq)
  show ?thesis
  proof (cases p)
    case False
    with src fresh(5) show ?thesis
      by (simp add: InternalShortestDistance_def)
  next
    case True
    show ?thesis
    proof (cases "e = s")
      case e: True
      with src True fresh(5) unwind_same_vertex [of g' s] show ?thesis
        by (simp add: InternalShortestDistance_def)
    next
      case False
      with fresh(1) True have "\<not> cached g' e"
        by (simp add: cached_def cache' update_conv')
      with src True fresh(5) show ?thesis
        by (simp add: InternalShortestDistance_def)
    qed
  qed
qed

lemma ShortestDistance_again:
  assumes "ShortestDistance g a b p = Some (Inr (d, r, g'))"
  shows "ShortestDistance g' a b p = Some (Inr (d, r, g'))"
proof -
  from assms obtain s e r0 where q: "ExternalToInternal g a = Inr s"
    "ExternalToInternal g b = Inr e"
    "InternalShortestDistance g s e p = Some (Inr (d, r0, g'))"
    "InternalToExternal_all g' r0 = Inr r"
    by (rule ShortestDistance_Inr)
  from InternalShortestDistance_same_graph [OF q(3)]
  have "ExternalToInternal g' a = Inr s" "ExternalToInternal g' b = Inr e"
    using q(1,2) by (simp_all add: ExternalToInternal_def same_graph_def)
  with InternalShortestDistance_again [OF q(3)] q(4) show ?thesis
    by (simp add: ShortestDistance_def)
qed

subsection \<open>The cache policy\<close>

lemma path_labels_in_both:
  "ExternalToInternal path_graph_40_10 10 = Inr 0" "ExternalToInternal path_graph_40_10 40 = Inr 3"
  by (simp_all add: ExternalToInternal_def path_graph_def path_graph_40_10_def)

lemma path_cached:
  "cached path_graph_40 3" "cached path_graph_40_10 3"
  "map_of (m_DijkstraStartVertices path_graph_40) 3 = Some 0"
  "map_of (m_DijkstraStartVertices path_graph_40_10) 3 = Some 0"
  by (simp_all add: cached_def path_graph_def path_graph_40_def path_graph_40_10_def)

lemma path_query_10_40_both:
  "ShortestDistance path_graph_40_10 10 40 False
     = Some (Inr (6, [10, 20, 30, 40], path_graph_40_10))"
  by (simp add: query_defs path_labels_in_both path_cached)
     (simp add: query_defs eval_simps path_graph_def path_graph_40_10_def)

lemma path_reachable: "reachable path_graph_40 path_graph_40_10"
  using reachable_step [OF reachable_refl, of path_graph_40 10 10 False 0 "[10]" path_graph_40_10]
    path_query_10_10_after
  by (simp add: ShortestDistance_default_def)

lemma InternalShortestDistance_policy:
  "InternalShortestDistance g s e p =
     (if cached g e then unwind False g s e
      else if cached g s then unwind True g s e
      else case InternalDijkstra g (if p then s else e) of
             None \<Rightarrow> None
           | Some (Inl err) \<Rightarrow> Some (Inl err)
           | Some (Inr (k, g1)) \<Rightarrow> unwind p g1 s e)"
  by (cases p) (auto simp: InternalShortestDistance_def split: option.splits sum.splits)

lemma ShortestDistance_returns:
  assumes "ExternalToInternal g a = Inr s" "ExternalToInternal g b = Inr e"
    and "ShortestDistance g a b p = Some (Inr (d, r, g'))"
  shows "(\<exists>r0. InternalToExternal_all g' r0 = Inr r \<and>
            (if cached g e then g' = g \<and> unwind False g s e = Some (Inr (d, r0, g))
             else if cached g s then g' = g \<and> unwind True g s e = Some (Inr (d, r0, g))
             else \<exists>k sd rt.
                    InternalDijkstra g (if p then s else e) = Some (Inr (k, g'))
                    \<and> (k, g') = save_results g (if p then s else e) sd rt
                    \<and> unwind p g' s e = Some (Inr (d, r0, g'))))
     \<and> (\<forall>g0. reachable g0 g \<and> cached g0 e \<longrightarrow>
           g' = g
           \<and> map_of (m_DijkstraStartVertices g) e = map_of (m_DijkstraStartVertices g0) e
           \<and> take (length (m_DijkstraOutputRoutes g0)) (m_DijkstraOutputRoutes g)
               = m_DijkstraOutputRoutes g0
           \<and> take (length (m_DijkstraShortestDistances g0)) (m_DijkstraShortestDistances g)
               = m_DijkstraShortestDistances g0)"
proof -
  from assms(3) obtain s' e' r0 where q: "ExternalToInternal g a = Inr s'"
    "ExternalToInternal g b = Inr e'"
    "InternalShortestDistance g s' e' p = Some (Inr (d, r0, g'))"
    "InternalToExternal_all g' r0 = Inr r"
    by (rule ShortestDistance_Inr)
  with assms(1,2) have isd: "InternalShortestDistance g s e p = Some (Inr (d, r0, g'))"
    by simp
  have policy: "if cached g e then g' = g \<and> unwind False g s e = Some (Inr (d, r0, g))
      else if cached g s then g' = g \<and> unwind True g s e = Some (Inr (d, r0, g))
      else \<exists>k sd rt.
             InternalDijkstra g (if p then s else e) = Some (Inr (k, g'))
             \<and> (k, g') = save_results g (if p then s else e) sd rt
             \<and> unwind p g' s e = Some (Inr (d, r0, g'))"
    using isd
  proof (cases rule: InternalShortestDistance_cases)
    case (fresh k sd rt)
    from fresh(3,4,5) have "\<exists>k sd rt.
             InternalDijkstra g (if p then s else e) = Some (Inr (k, g'))
             \<and> (k, g') = save_results g (if p then s else e) sd rt
             \<and> unwind p g' s e = Some (Inr (d, r0, g'))"
      by blast
    with fresh(1,2) show ?thesis by simp
  qed simp_all
  have later: "g' = g
      \<and> map_of (m_DijkstraStartVertices g) e = map_of (m_DijkstraStartVertices g0) e
      \<and> take (length (m_DijkstraOutputRoutes g0)) (m_DijkstraOutputRoutes g)
          = m_DijkstraOutputRoutes g0
      \<and> take (length (m_DijkstraShortestDistances g0)) (m_DijkstraShortestDistances g)
          = m_DijkstraShortestDistances g0"
    if "reachable g0 g" "cached g0 e" for g0
  proof -
    from that(2) obtain k where k: "map_of (m_DijkstraStartVertices g0) e = Some k"
      by (auto simp: cached_def)
    note keep = reachable_keeps [OF that(1)]
    from keep k have k': "map_of (m_DijkstraStartVertices g) e = Some k"
      by blast
    then have "cached g e"
      by (simp add: cached_def)
    with policy have "g' = g" by simp
    with keep k k' show ?thesis by simp
  qed
  from q(4) policy later show ?thesis by blast
qed

text \<open>
  Claim C5. First conjunct, for every call of \<^verbatim>\<open>InternalShortestDistance\<close>, returning or
  not: with a tree rooted at the end vertex in the cache the answer is read from that
  tree; otherwise, with a tree rooted at the start vertex in the cache, from that one;
  otherwise \<^verbatim>\<open>InternalDijkstra\<close> runs from the start vertex when \<^verbatim>\<open>preferStartVertex\<close>
  is true and from the end vertex when it is false, and the answer is read from the new
  tree. Second conjunct, for every call of \<^verbatim>\<open>ShortestDistance\<close> that returns: in the two
  reuse cases the graph is left exactly as it was (no slot is added), in the third case
  the new state is the old one with one slot appended for the chosen root; and when some
  earlier state of the graph already had a tree rooted at the end vertex, the call leaves
  the graph as it was and the end vertex still has the slot it had then, the slots of
  that earlier state being unchanged.
\<close>

theorem C5_cache_policy:
  "InternalShortestDistance g s e p =
     (if cached g e then unwind False g s e
      else if cached g s then unwind True g s e
      else case InternalDijkstra g (if p then s else e) of
             None \<Rightarrow> None
           | Some (Inl err) \<Rightarrow> Some (Inl err)
           | Some (Inr (k, g1)) \<Rightarrow> unwind p g1 s e)
   \<and> (ExternalToInternal g a = Inr s \<and> ExternalToInternal g b = Inr e
        \<and> ShortestDistance g a b p = Some (Inr (d, r, g')) \<longrightarrow>
      (\<exists>r0. InternalToExternal_all g' r0 = Inr r \<and>
            (if cached g e then g' = g \<and> unwind False g s e = Some (Inr (d, r0, g))
             else if cached g s then g' = g \<and> unwind True g s e = Some (Inr (d, r0, g))
             else \<exists>k sd rt.
                    InternalDijkstra g (if p then s else e) = Some (Inr (k, g'))
                    \<and> (k, g') = save_results g (if p then s else e) sd rt
                    \<and> unwind p g' s e = Some (Inr (d, r0, g'))))
      \<and> (\<forall>g0. reachable g0 g \<and> cached g0 e \<longrightarrow>
           g' = g
           \<and> map_of (m_DijkstraStartVertices g) e = map_of (m_DijkstraStartVertices g0) e
           \<and> take (length (m_DijkstraOutputRoutes g0)) (m_DijkstraOutputRoutes g)
               = m_DijkstraOutputRoutes g0
           \<and> take (length (m_DijkstraShortestDistances g0)) (m_DijkstraShortestDistances g)
               = m_DijkstraShortestDistances g0))"
  using InternalShortestDistance_policy [of g s e p] ShortestDistance_returns [of g a s b e p d r g']
  by blast

text \<open>
  Claim C5, witness, on the path graph: the query from 10 to 40 in the state with both
  trees reads the tree of 40, which has the slot it had before the tree of 10 was added;
  the same query on the fresh graph computes the tree rooted at 40.
\<close>

theorem C5_witness_path_graph:
  "(\<exists>r0. InternalToExternal_all path_graph_40_10 r0 = Inr [10, 20, 30, 40]
        \<and> unwind False path_graph_40_10 0 3 = Some (Inr (6, r0, path_graph_40_10)))
   \<and> map_of (m_DijkstraStartVertices path_graph_40_10) 3
       = map_of (m_DijkstraStartVertices path_graph_40) 3
   \<and> (\<exists>r0 k sd rt. InternalToExternal_all path_graph_40 r0 = Inr [10, 20, 30, 40]
        \<and> InternalDijkstra path_graph 3 = Some (Inr (k, path_graph_40))
        \<and> (k, path_graph_40) = save_results path_graph 3 sd rt
        \<and> unwind False path_graph_40 0 3 = Some (Inr (6, r0, path_graph_40)))"
proof -
  note reuse = C5_cache_policy [of path_graph_40_10 0 3 False 10 40 6 "[10, 20, 30, 40]"
      path_graph_40_10, THEN conjunct2, rule_format,
      OF conjI [OF path_labels_in_both(1) conjI [OF path_labels_in_both(2) path_query_10_40_both]]]
  note fresh = C5_cache_policy [of path_graph 0 3 False 10 40 6 "[10, 20, 30, 40]"
      path_graph_40, THEN conjunct2, rule_format,
      OF conjI [OF path_labels_in(1) conjI [OF path_labels_in(2)
        path_query_10_40 [unfolded ShortestDistance_default_def]]]]
  from reuse path_cached(2) have
    "\<exists>r0. InternalToExternal_all path_graph_40_10 r0 = Inr [10, 20, 30, 40]
        \<and> unwind False path_graph_40_10 0 3 = Some (Inr (6, r0, path_graph_40_10))"
    by simp
  moreover from reuse path_reachable path_cached(1) have
    "map_of (m_DijkstraStartVertices path_graph_40_10) 3
       = map_of (m_DijkstraStartVertices path_graph_40) 3"
    by blast
  moreover from fresh path_not_cached(1,2) have
    "\<exists>r0 k sd rt. InternalToExternal_all path_graph_40 r0 = Inr [10, 20, 30, 40]
        \<and> InternalDijkstra path_graph 3 = Some (Inr (k, path_graph_40))
        \<and> (k, path_graph_40) = save_results path_graph 3 sd rt
        \<and> unwind False path_graph_40 0 3 = Some (Inr (6, r0, path_graph_40))"
    by auto
  ultimately show ?thesis by blast
qed

subsection \<open>Slots stay\<close>

text \<open>
  Claim C6. Let the start vertex \<open>s\<close> have slot \<open>k\<close> in a state \<open>g\<close> and let \<open>g2\<close> be any
  later state. Then \<open>s\<close> still has slot \<open>k\<close>; the slots of \<open>g\<close> are the first slots of
  \<open>g2\<close>, unchanged; a further \<^verbatim>\<open>InternalDijkstra\<close> for \<open>s\<close> returns \<open>k\<close> and leaves the
  graph as it is; and a call of \<^verbatim>\<open>ShortestDistance\<close> that returned, made again with the
  same arguments, returns the same distance and route and changes nothing.
\<close>

theorem C6_cache_slot_never_recomputed:
  assumes "map_of (m_DijkstraStartVertices g) s = Some k" "s < m_Order g" "reachable g g2"
  shows "map_of (m_DijkstraStartVertices g2) s = Some k
     \<and> take (length (m_DijkstraOutputRoutes g)) (m_DijkstraOutputRoutes g2)
         = m_DijkstraOutputRoutes g
     \<and> take (length (m_DijkstraShortestDistances g)) (m_DijkstraShortestDistances g2)
         = m_DijkstraShortestDistances g
     \<and> InternalDijkstra g2 s = Some (Inr (k, g2))
     \<and> (\<forall>a b p d r g3. ShortestDistance g2 a b p = Some (Inr (d, r, g3))
           \<longrightarrow> ShortestDistance g3 a b p = Some (Inr (d, r, g3)))"
proof -
  note keep = reachable_keeps [OF assms(3)]
  from keep assms(1) have slot: "map_of (m_DijkstraStartVertices g2) s = Some k"
    by blast
  from keep assms(2) have "s < m_Order g2"
    by (simp add: same_graph_def)
  from InternalDijkstra_cached [OF this slot] slot keep ShortestDistance_again
  show ?thesis by blast
qed

text \<open>
  Claim C6, witness, on the path graph with the tree of 40 in slot 0: after the query
  from 10 to 10 has added a second tree, 40 still has slot 0 and a further
  \<^verbatim>\<open>InternalDijkstra\<close> returns it; the query from 10 to 10, made again, gives the same
  answer.
\<close>

theorem C6_witness_path_graph:
  "map_of (m_DijkstraStartVertices path_graph_40_10) 3 = Some 0
   \<and> InternalDijkstra path_graph_40_10 3 = Some (Inr (0, path_graph_40_10))
   \<and> ShortestDistance path_graph_40_10 10 10 False = Some (Inr (0, [10], path_graph_40_10))"
proof -
  have order: "3 < m_Order path_graph_40"
    by (simp add: path_graph_40_def path_graph_def)
  note later = C6_cache_slot_never_recomputed [OF path_cached(3) order path_reachable]
  note twice = C6_cache_slot_never_recomputed [OF path_cached(3) order reachable_refl]
  from twice path_query_10_10_after [unfolded ShortestDistance_default_def]
  have "ShortestDistance path_graph_40_10 10 10 False = Some (Inr (0, [10], path_graph_40_10))"
    by blast
  with later show ?thesis by blast
qed

section \<open>Shape classification in general\<close>

lemma lower_chain:
  assumes "length (dm ! 0) = 1"
    and "\<forall>i\<in>set [0..<n]. 0 < i \<longrightarrow> length (dm ! i) = length (dm ! (i - 1)) + 1"
    and "i < n"
  shows "length (dm ! i) = i + 1"
  using assms(3)
proof (induction i)
  case 0
  then show ?case using assms(1) by simp
next
  case (Suc i)
  then have "length (dm ! i) = i + 1" by simp
  moreover from assms(2) Suc.prems have "length (dm ! Suc i) = length (dm ! i) + 1"
    by force
  ultimately show ?case by simp
qed

lemma upper_chain:
  assumes "length (dm ! 0) = n" "n \<le> UINT_MAX"
    and "\<forall>i\<in>set [0..<n]. 0 < i \<longrightarrow>
           length (dm ! i) = (length (dm ! (i - 1)) + 2 ^ 64 - 1) mod 2 ^ 64"
    and "i < n"
  shows "length (dm ! i) = n - i"
  using assms(4)
proof (induction i)
  case 0
  then show ?case using assms(1) by simp
next
  case (Suc i)
  then have prev: "length (dm ! i) = n - i" by simp
  from assms(3) Suc.prems
  have "length (dm ! Suc i) = (length (dm ! i) + 2 ^ 64 - 1) mod 2 ^ 64"
    by force
  also have "\<dots> = (n - i) - 1"
    using size_wrap_minus [of "n - i"] prev Suc.prems assms(2) by simp
  finally show ?case by simp
qed

lemma CheckInput_after_guess:
  assumes "length dm \<le> UINT_MAX" "guess_shape n dm = Inr sh"
    "sh \<in> {square, lowerTriangular, upperTriangular}"
    "check_rows sh n dm [0..<n] = Inr res"
  shows "CheckInput_DistMat n dm =
     (case res of
        Some r \<Rightarrow> Inr r
      | None \<Rightarrow> if has_invalid_element n dm then Inr invalidElements else Inr sh)"
  using assms by (auto simp: CheckInput_DistMat_def split: option.splits)

lemma CheckInput_shape_classification:
  assumes two: "2 \<le> length dm" and small: "length dm \<le> UINT_MAX"
    and rows: "\<forall>row\<in>set dm. length row \<le> UINT_MAX"
    and n: "n = length dm"
  shows "CheckInput_DistMat n dm =
     (if \<forall>i<n. length (dm ! i) = n
        then (if has_invalid_element n dm then Inr invalidElements else Inr square)
      else if \<forall>i<n. length (dm ! i) = i + 1
        then (if has_invalid_element n dm then Inr invalidElements else Inr lowerTriangular)
      else if \<forall>i<n. length (dm ! i) = n - i
        then (if has_invalid_element n dm then Inr invalidElements else Inr upperTriangular)
      else Inr badShape)"
proof -
  let ?a = "length (dm ! 0)" and ?b = "length (dm ! 1)"
  have n2: "2 \<le> n" "1 \<le> n" "0 < n" "1 < n" "n \<le> UINT_MAX"
    using two small n by linarith+
  have sub: "set [0..<n] \<subseteq> {..<length dm}"
    using n by auto
  have rows': "\<forall>i\<in>set [0..<n]. length (dm ! i) \<le> UINT_MAX"
    using rows n by auto
  note gs = guess_shape_two_rows [OF two n2(5) n2(2)]
  note cs = check_rows_square [OF sub rows', of n]
  note cl = check_rows_lower [OF sub rows', of n]
  note cu = check_rows_upper [OF sub rows', of n]
  let ?sq = "\<forall>i<n. length (dm ! i) = n"
  let ?lo = "\<forall>i<n. length (dm ! i) = i + 1"
  let ?up = "\<forall>i<n. length (dm ! i) = n - i"
  have sq0: "?a = n" and sq1: "?b = n" if ?sq
    using that n2(3,4) by blast+
  have lo0: "?a = 1" and lo1: "?b = 2" if ?lo
  proof -
    from that n2(3) have "?a = 0 + 1" by blast
    then show "?a = 1" by simp
    from that n2(4) have "?b = 1 + 1" by blast
    then show "?b = 2" by simp
  qed
  have up0: "?a = n" and up1: "?b = n - 1" if ?up
  proof -
    from that n2(3) have "?a = n - 0" by blast
    then show "?a = n" by simp
    from that n2(4) show "?b = n - 1" by blast
  qed
  consider (square) "?a = n" "?b = n"
    | (lower) "\<not> (?a = n \<and> ?b = n)" "?a = 1" "?b = 2"
    | (upper) "\<not> (?a = n \<and> ?b = n)" "\<not> (?a = 1 \<and> ?b = 2)" "?a = n" "?b = n - 1"
    | (bad) "\<not> (?a = n \<and> ?b = n)" "\<not> (?a = 1 \<and> ?b = 2)" "\<not> (?a = n \<and> ?b = n - 1)"
    by blast
  then show ?thesis
  proof cases
    case square
    then have g: "guess_shape n dm = Inr square"
      using gs by simp
    have nlo: "\<not> ?lo"
    proof
      assume ?lo
      then have "?a = 1" by (rule lo0)
      with square(1) n2(4) show False by linarith
    qed
    have nup: "\<not> ?up"
    proof
      assume ?up
      then have "?b = n - 1" by (rule up1)
      with square(2) n2(2) show False by linarith
    qed
    have cr: "check_rows square n dm [0..<n] = Inr (if ?sq then None else Some badShape)"
      using cs by (simp add: atLeast0LessThan)
    have "CheckInput_DistMat n dm =
        (if ?sq then if has_invalid_element n dm then Inr invalidElements else Inr square
         else Inr badShape)"
      using CheckInput_after_guess [OF small g _ cr] by simp
    then show ?thesis
      by (simp only: nlo nup if_False)
  next
    case lower
    then have g: "guess_shape n dm = Inr lowerTriangular"
      using gs by simp
    have nsq: "\<not> ?sq"
    proof
      assume ?sq
      then have "?a = n" by (rule sq0)
      with lower(2) n2(4) show False by linarith
    qed
    have nup: "\<not> ?up"
    proof
      assume ?up
      then have "?a = n" by (rule up0)
      with lower(2) n2(4) show False by linarith
    qed
    have chain: "(\<forall>i\<in>set [0..<n]. 0 < i \<longrightarrow> length (dm ! i) = length (dm ! (i - 1)) + 1)
        \<longleftrightarrow> ?lo"
    proof
      assume c: "\<forall>i\<in>set [0..<n]. 0 < i \<longrightarrow> length (dm ! i) = length (dm ! (i - 1)) + 1"
      show ?lo using lower_chain [OF lower(2) c] by blast
    next
      assume ?lo
      then show "\<forall>i\<in>set [0..<n]. 0 < i \<longrightarrow> length (dm ! i) = length (dm ! (i - 1)) + 1"
        by auto
    qed
    have cr: "check_rows lowerTriangular n dm [0..<n]
        = Inr (if ?lo then None else Some badShape)"
      using cl chain by simp
    have "CheckInput_DistMat n dm =
        (if ?lo then if has_invalid_element n dm then Inr invalidElements
                     else Inr lowerTriangular
         else Inr badShape)"
      using CheckInput_after_guess [OF small g _ cr] by simp
    then show ?thesis
      by (simp only: nsq nup if_False)
  next
    case upper
    then have g: "guess_shape n dm = Inr upperTriangular"
      using gs by simp
    have nsq: "\<not> ?sq"
    proof
      assume ?sq
      then have "?b = n" by (rule sq1)
      with upper(4) n2(2) show False by linarith
    qed
    have nlo: "\<not> ?lo"
    proof
      assume ?lo
      then have "?a = 1" by (rule lo0)
      with upper(3) n2(4) show False by linarith
    qed
    have chain: "(\<forall>i\<in>set [0..<n]. 0 < i \<longrightarrow>
           length (dm ! i) = (length (dm ! (i - 1)) + 2 ^ 64 - 1) mod 2 ^ 64) \<longleftrightarrow> ?up"
    proof
      assume c: "\<forall>i\<in>set [0..<n]. 0 < i \<longrightarrow>
           length (dm ! i) = (length (dm ! (i - 1)) + 2 ^ 64 - 1) mod 2 ^ 64"
      show ?up using upper_chain [OF upper(3) n2(5) c] by blast
    next
      assume u: ?up
      show "\<forall>i\<in>set [0..<n]. 0 < i \<longrightarrow>
           length (dm ! i) = (length (dm ! (i - 1)) + 2 ^ 64 - 1) mod 2 ^ 64"
      proof (intro ballI impI)
        fix i assume i: "i \<in> set [0..<n]" "0 < i"
        then have "length (dm ! (i - 1)) = n - (i - 1)" "length (dm ! i) = n - i"
          using u by auto
        moreover have "(n - (i - 1) + 2 ^ 64 - 1) mod 2 ^ 64 = n - (i - 1) - 1"
          using size_wrap_minus [of "n - (i - 1)"] i n2(5) by simp
        ultimately show "length (dm ! i) = (length (dm ! (i - 1)) + 2 ^ 64 - 1) mod 2 ^ 64"
          using i by simp
      qed
    qed
    have cr: "check_rows upperTriangular n dm [0..<n]
        = Inr (if ?up then None else Some badShape)"
      using cu chain by simp
    have "CheckInput_DistMat n dm =
        (if ?up then if has_invalid_element n dm then Inr invalidElements
                     else Inr upperTriangular
         else Inr badShape)"
      using CheckInput_after_guess [OF small g _ cr] by simp
    then show ?thesis
      by (simp only: nsq nlo if_False)
  next
    case bad
    then have g: "guess_shape n dm = Inr badShape"
      using gs by auto
    have nsq: "\<not> ?sq" using bad(1) sq0 sq1 by blast
    have nlo: "\<not> ?lo" using bad(2) lo0 lo1 by blast
    have nup: "\<not> ?up" using bad(3) up0 up1 by blast
    from g small have "CheckInput_DistMat n dm = Inr badShape"
      by (simp add: CheckInput_DistMat_def)
    then show ?thesis
      by (simp only: nsq nlo nup if_False)
  qed
qed

text \<open>
  The malformed input of the spec, rows of 1, 2 and 4 cells: the first two rows look
  lower-triangular and row 2 breaks the pattern.
\<close>

lemma rows_1_2_4_bad_shape:
  "CheckInput_DistMat 3 [[0], [0, 0], [0, 0, 0, 0]] = Inr badShape"
  "CGraph_new [[0], [0, 0], [0, 0, 0, 0]] [10, 20, 30] = Inl InputDistMat_NotSquareMatrix"
  by (simp_all add: CGraph_new_def check_defs eval_simps upt_0_3)

lemma one_by_one_check: "CheckInput_DistMat 1 [[0]] = Inl UndefinedBehaviour"
  by (simp add: check_defs eval_simps)

text \<open>
  Claim C7, at the matrix with the single row 0. Its one row has length 1, the number of
  rows, so the claim classifies it as square. The check compares the sizes of rows 0 and 1
  before anything else, and row 1 does not exist: the check, and with it the
  constructor, reads out of range. For two rows or more, within the size limits, the
  check classifies as the claim says (\<open>CheckInput_shape_classification\<close>).
\<close>

theorem C7_one_by_one_matrix_not_classified:
  "CheckInput_DistMat 1 [[0]] = Inl UndefinedBehaviour
   \<and> CGraph_new [[0]] [10] = Inl UndefinedBehaviour"
  using one_by_one_check one_by_one_new by simp

text \<open>
  Claim C10 as stated fails: a matrix with the single row 0 0 has fewer than two rows, yet
  the constructor reaches a documented failure, the bad-shape error. Each of the three
  tests of rows 0 and 1 stops at row 0, whose size is neither the order 1 nor 1, so row 1
  is never read.
\<close>

theorem C10_counterexample_one_row_two_cells:
  "CGraph_new [[0, 0]] [10] = Inl InputDistMat_NotSquareMatrix"
  by (rule one_row_two_cells_new)

text \<open>
  Claim C10, amended. Without rows the constructor reads row 0 out of range. With one row
  of length 1, the well-formed 1 x 1 matrix, it reads row 1 out of range. In both cases
  it reaches no documented classification. With one row of any other length it fails
  with the bad-shape error.
\<close>

theorem C10_fewer_than_two_rows:
  "CGraph_new [] labels = Inl UndefinedBehaviour
   \<and> CGraph_new [row] labels =
       (if length row = 1 then Inl UndefinedBehaviour else Inl InputDistMat_NotSquareMatrix)"
  by (simp add: CGraph_new_def check_defs eval_simps)

text \<open>
  What holds of every graph that the constructor does build: its adjacency matrix is the
  one claim C2 describes, and its input was not triangular.
\<close>

lemma constructed_adjacency:
  assumes "CGraph_new dm labels = Inr g" "i < m_Order g" "j < m_Order g"
  shows "m_AdjacencyMatrix g ! i ! j = (m_DistanceMatrix g ! i ! j \<ge> 0 \<and> i \<noteq> j)"
proof -
  from CGraph_new_Inr(5) [OF assms(1)]
  obtain adj where adj: "make_adjacency (length dm) dm = Inr adj"
    and g: "g = \<lparr> m_Order = length dm, m_InternalToExternal = labels,
             m_ExternalToInternal = store_labels labels, m_DistanceMatrix = dm,
             m_AdjacencyMatrix = adj, m_DijkstraStartVertices = [],
             m_DijkstraOutputRoutes = [], m_DijkstraShortestDistances = [] \<rparr>"
    by blast
  from assms(2,3) have "i < length dm" "j < length dm"
    by (simp_all add: g)
  from make_adjacency_Inr(3) [OF adj this] show ?thesis
    by (simp add: g)
qed

lemma triangular_never_constructed:
  assumes "2 \<le> length dm"
    and "(\<forall>i<length dm. length (dm ! i) = i + 1)
       \<or> (\<forall>i<length dm. length (dm ! i) = length dm - i)"
  shows "CGraph_new dm labels \<noteq> Inr g"
proof
  assume "CGraph_new dm labels = Inr g"
  from CGraph_new_Inr(3) [OF this] have sq: "length (dm ! i) = length dm" if "i < length dm" for i
    using that by simp
  have "0 < length dm" "1 < length dm"
    using assms(1) by linarith+
  with assms(2) have "length (dm ! 0) = 0 + 1 \<or> length (dm ! 1) = length dm - 1"
    by blast
  with sq [of 0] sq [of 1] \<open>0 < length dm\<close> \<open>1 < length dm\<close> show False
    by linarith
qed

section \<open>The two directions of a query\<close>

lemma big_new: "CGraph_new big_matrix [10, 20, 30, 40] = Inr big_graph"
proof -
  have "length big_matrix mod 2 ^ 32 = 4"
    by (simp add: big_matrix_def)
  moreover have "CheckInput_DistMat 4 big_matrix = Inr square"
    by (simp add: check_defs eval_simps big_matrix_def upt_0_4)
  moreover have "make_adjacency 4 big_matrix = Inr (m_AdjacencyMatrix big_graph)"
    by (simp add: make_adjacency_def fill_matrix_def access_defs big_matrix_def upt_0_4
        big_graph_def)
  ultimately show ?thesis
    by (simp add: CGraph_new_def finish_construction_def path_labels big_graph_def)
qed

lemma big_dijkstra_3: "InternalDijkstra big_graph 3 = Some (Inr (0, big_graph_40))"
  by (simp add: dijkstra_defs eval_simps dadd_big upt_0_4 big_graph_def big_graph_40_def
      big_matrix_def)

lemma big_dijkstra_0: "InternalDijkstra big_graph_40 0 = Some (Inr (1, big_graph_40_10))"
  by (simp add: dijkstra_defs eval_simps dadd_tie upt_0_4 big_graph_def big_graph_40_def
      big_graph_40_10_def big_matrix_def)

lemma big_labels_in:
  "ExternalToInternal big_graph 10 = Inr 0" "ExternalToInternal big_graph 20 = Inr (Suc 0)"
  "ExternalToInternal big_graph 40 = Inr 3"
  "ExternalToInternal big_graph_40 10 = Inr 0" "ExternalToInternal big_graph_40 20 = Inr (Suc 0)"
  "ExternalToInternal big_graph_40 40 = Inr 3"
  "ExternalToInternal big_graph_40_10 10 = Inr 0" "ExternalToInternal big_graph_40_10 40 = Inr 3"
  by (simp_all add: ExternalToInternal_def big_graph_def big_graph_40_def big_graph_40_10_def)

lemma big_cached:
  "\<not> cached big_graph 0" "\<not> cached big_graph (Suc 0)" "\<not> cached big_graph 3"
  "\<not> cached big_graph_40 0" "\<not> cached big_graph_40 (Suc 0)" "cached big_graph_40 3"
  "cached big_graph_40_10 0" "cached big_graph_40_10 3"
  by (simp_all add: cached_def big_graph_def big_graph_40_def big_graph_40_10_def)

lemma big_query_20_40:
  "ShortestDistance big_graph 20 40 False = Some (Inr (2, [20, 30, 40], big_graph_40))"
  by (simp add: query_defs big_labels_in big_cached big_dijkstra_3)
     (simp add: query_defs eval_simps big_graph_def big_graph_40_def)

lemma big_query_20_10:
  "ShortestDistance big_graph_40 20 10 False
     = Some (Inr (9007199254740992, [20, 10], big_graph_40_10))"
  by (simp add: query_defs big_labels_in big_cached big_dijkstra_0)
     (simp add: query_defs eval_simps big_graph_def big_graph_40_def big_graph_40_10_def)

lemma big_query_10_40:
  "ShortestDistance big_graph_40_10 10 40 False
     = Some (Inr (9007199254740994, [10, 20, 30, 40], big_graph_40_10))"
  by (simp add: query_defs big_labels_in big_cached)
     (simp add: query_defs eval_simps big_graph_def big_graph_40_10_def)

lemma big_query_40_10:
  "ShortestDistance big_graph_40_10 40 10 False
     = Some (Inr (9007199254740992, [40, 30, 20, 10], big_graph_40_10))"
  by (simp add: query_defs big_labels_in big_cached)
     (simp add: query_defs eval_simps big_graph_def big_graph_40_10_def)

lemma big_query_10_40_fresh:
  "ShortestDistance big_graph 10 40 False
     = Some (Inr (9007199254740994, [10, 20, 30, 40], big_graph_40))"
  by (simp add: query_defs big_labels_in big_cached big_dijkstra_3)
     (simp add: query_defs eval_simps big_graph_def big_graph_40_def)

lemma big_query_40_10_after:
  "ShortestDistance big_graph_40 40 10 False
     = Some (Inr (9007199254740994, [40, 30, 20, 10], big_graph_40))"
  by (simp add: query_defs big_labels_in big_cached)
     (simp add: query_defs eval_simps big_graph_def big_graph_40_def)

text \<open>
  Claim C8 as stated fails. The matrix of the path 10 - 20 - 30 - 40 with the weights
  \<open>2 ^ 53\<close>, 1, 1 is symmetric. Two queries bring the trees rooted at 40 and at 10 into
  the cache of one graph. The query from 10 to 40 then reads the tree of 40, where the
  distance of 10 is (1 + 1) + \<open>2 ^ 53\<close> = 9007199254740994; the query from 40 to 10 reads
  the tree of 10, where the distance of 40 is (\<open>2 ^ 53\<close> + 1) + 1, each sum rounded to
  \<open>2 ^ 53\<close> = 9007199254740992.
\<close>

theorem C8_counterexample_rounded_sums:
  "CGraph_new
      [[0, 9007199254740992, - 1, - 1], [9007199254740992, 0, 1, - 1],
       [- 1, 1, 0, 1], [- 1, - 1, 1, 0]] [10, 20, 30, 40] = Inr big_graph
   \<and> ShortestDistance big_graph 20 40 False = Some (Inr (2, [20, 30, 40], big_graph_40))
   \<and> ShortestDistance big_graph_40 20 10 False
       = Some (Inr (9007199254740992, [20, 10], big_graph_40_10))
   \<and> ShortestDistance big_graph_40_10 10 40 False
       = Some (Inr (9007199254740994, [10, 20, 30, 40], big_graph_40_10))
   \<and> ShortestDistance big_graph_40_10 40 10 False
       = Some (Inr (9007199254740992, [40, 30, 20, 10], big_graph_40_10))"
  using big_new big_query_20_40 big_query_20_10 big_query_10_40 big_query_40_10
  by (simp add: big_matrix_def)

subsection \<open>One tree for both directions\<close>

lemma unwind_distance:
  assumes "map_of (m_DijkstraStartVertices g) (if b then x else y) = Some k"
    and "unwind b g x y = Some (Inr (d, r, g'))"
  shows "vget2 (m_DijkstraShortestDistances g) k (if b then y else x) = Inr d"
  using assms(2) [unfolded unwind_cached [OF assms(1)]]
  by (auto split: option.splits sum.splits)

text \<open>
  The tree that answers a call that returns: its root is in the cache afterwards, and
  the distance is the entry of its distance vector at the other vertex of the query.
\<close>

lemma answer_source:
  assumes "InternalShortestDistance g s t p = Some (Inr (d, r, g1))"
  defines "rv \<equiv> if cached g t then t else if cached g s then s else if p then s else t"
  shows "\<exists>k. map_of (m_DijkstraStartVertices g1) rv = Some k
       \<and> vget2 (m_DijkstraShortestDistances g1) k (if rv = t then s else t) = Inr d"
    and "g1 = g \<or> (\<not> cached g s \<and> \<not> cached g t
          \<and> (\<forall>v. cached g1 v \<longleftrightarrow> v = rv \<or> cached g v))"
proof -
  have "(\<exists>k. map_of (m_DijkstraStartVertices g1) rv = Some k
       \<and> vget2 (m_DijkstraShortestDistances g1) k (if rv = t then s else t) = Inr d)
    \<and> (g1 = g \<or> (\<not> cached g s \<and> \<not> cached g t
          \<and> (\<forall>v. cached g1 v \<longleftrightarrow> v = rv \<or> cached g v)))"
    using assms(1)
  proof (cases rule: InternalShortestDistance_cases)
    case use_end
    then have rv: "rv = t" by (simp add: rv_def)
    from use_end(1) obtain k where k: "map_of (m_DijkstraStartVertices g) t = Some k"
      by (auto simp: cached_def)
    from unwind_distance [of g False s t k d r g] k use_end(3)
    have "vget2 (m_DijkstraShortestDistances g) k s = Inr d" by simp
    with k rv use_end(2) show ?thesis by simp
  next
    case use_start
    then have rv: "rv = s" "s \<noteq> t" by (auto simp: rv_def)
    from use_start(2) obtain k where k: "map_of (m_DijkstraStartVertices g) s = Some k"
      by (auto simp: cached_def)
    from unwind_distance [of g True s t k d r g] k use_start(4)
    have "vget2 (m_DijkstraShortestDistances g) k t = Inr d" by simp
    with k rv use_start(3) show ?thesis by simp
  next
    case (fresh k sd rt)
    then have rv: "rv = (if p then s else t)" by (simp add: rv_def)
    from InternalDijkstra_caches [OF fresh(3)]
    have k: "map_of (m_DijkstraStartVertices g1) rv = Some k"
      by (simp add: rv)
    have other: "(if p then t else s) = (if rv = t then s else t)"
      by (auto simp: rv)
    from unwind_distance [of g1 p s t k d r g1] k fresh(5)
    have "vget2 (m_DijkstraShortestDistances g1) k (if p then t else s) = Inr d"
      by (simp add: rv)
    then have d: "vget2 (m_DijkstraShortestDistances g1) k (if rv = t then s else t) = Inr d"
      by (simp only: other)
    from fresh(4) have "g1 = snd (save_results g rv sd rt)"
      by (metis snd_conv rv)
    then have "cached g1 v \<longleftrightarrow> v = rv \<or> cached g v" for v
      by (auto simp: cached_def save_results_eq update_conv')
    with k d fresh(1,2) show ?thesis by blast
  qed
  then show "\<exists>k. map_of (m_DijkstraStartVertices g1) rv = Some k
       \<and> vget2 (m_DijkstraShortestDistances g1) k (if rv = t then s else t) = Inr d"
    and "g1 = g \<or> (\<not> cached g s \<and> \<not> cached g t
          \<and> (\<forall>v. cached g1 v \<longleftrightarrow> v = rv \<or> cached g v))"
    by blast+
qed

text \<open>
  Rounding cannot separate two answers that are read from one tree. Let \<open>s\<close> and \<open>t\<close> be
  the vertices of two registered labels, in any graph and any state of its cache in which
  the trees rooted at \<open>s\<close> and at \<open>t\<close> are not both present (or \<open>s\<close> is \<open>t\<close>). If the
  query from \<open>s\<close> to \<open>t\<close> returns and the query from \<open>t\<close> to \<open>s\<close> that follows it
  returns, the two distances are equal, and the second call leaves the graph as the first
  one left it.
\<close>

lemma same_tree_same_distance:
  assumes a: "ExternalToInternal g a = Inr s" and b: "ExternalToInternal g b = Inr t"
    and one: "s = t \<or> \<not> cached g s \<or> \<not> cached g t"
    and q1: "ShortestDistance g a b p = Some (Inr (d1, r1, g1))"
    and q2: "ShortestDistance g1 b a p' = Some (Inr (d2, r2, g2))"
  shows "d1 = d2 \<and> g2 = g1"
proof -
  from q1 a b obtain r1' where i1: "InternalShortestDistance g s t p = Some (Inr (d1, r1', g1))"
    by (auto elim!: ShortestDistance_Inr)
  from InternalShortestDistance_same_graph [OF i1] a b
  have "ExternalToInternal g1 a = Inr s" "ExternalToInternal g1 b = Inr t"
    by (simp_all add: ExternalToInternal_def same_graph_def)
  with q2 obtain r2' where i2: "InternalShortestDistance g1 t s p' = Some (Inr (d2, r2', g2))"
    by (auto elim!: ShortestDistance_Inr)
  define rv where "rv = (if cached g t then t else if cached g s then s else if p then s else t)"
  define rv' where
    "rv' = (if cached g1 s then s else if cached g1 t then t else if p' then t else s)"
  note src1 = answer_source [OF i1, folded rv_def]
  note src2 = answer_source [OF i2, folded rv'_def]
  from src1(1) have c1: "cached g1 rv"
    by (auto simp: cached_def)
  have same: "rv' = rv"
  proof (cases "s = t")
    case True
    then show ?thesis by (simp add: rv_def rv'_def)
  next
    case False
    from src1(2) show ?thesis
    proof
      assume "g1 = g"
      with False one c1 show ?thesis
        by (auto simp: rv_def rv'_def split: if_splits)
    next
      assume "\<not> cached g s \<and> \<not> cached g t \<and> (\<forall>v. cached g1 v \<longleftrightarrow> v = rv \<or> cached g v)"
      with False show ?thesis
        by (auto simp: rv_def rv'_def)
    qed
  qed
  have "cached g1 s \<or> cached g1 t"
    using c1 by (auto simp: rv_def split: if_splits)
  with src2(2) have g2: "g2 = g1" by blast
  have other: "(if rv = s then t else s) = (if rv = t then s else t)"
    by (auto simp: rv_def split: if_splits)
  from src1(1) obtain k where k: "map_of (m_DijkstraStartVertices g1) rv = Some k"
    "vget2 (m_DijkstraShortestDistances g1) k (if rv = t then s else t) = Inr d1"
    by blast
  from src2(1) [unfolded g2 same other] k(1)
  have "vget2 (m_DijkstraShortestDistances g1) k (if rv = t then s else t) = Inr d2"
    by auto
  with k(2) g2 show ?thesis by simp
qed

text \<open>
  On the fresh graph of the counterexample, the query from 10 to 40 and the query from 40
  to 10 that follows it return the same distance.
\<close>

lemma big_graph_both_directions:
  "\<exists>d. ShortestDistance big_graph 10 40 False
           = Some (Inr (d, [10, 20, 30, 40], big_graph_40))
       \<and> ShortestDistance big_graph_40 40 10 False
           = Some (Inr (d, [40, 30, 20, 10], big_graph_40))"
proof -
  have one: "0 = (3::nat) \<or> \<not> cached big_graph 0 \<or> \<not> cached big_graph 3"
    using big_cached(1) by simp
  from same_tree_same_distance [OF big_labels_in(1) big_labels_in(3) one
      big_query_10_40_fresh big_query_40_10_after]
    big_query_10_40_fresh big_query_40_10_after
  show ?thesis by blast
qed

section \<open>Correctness of the single-source computation\<close>

text \<open>
  When no sum along a path without a repeated vertex is rounded, \<^verbatim>\<open>InternalDijkstra\<close>
  computes least path weights: the vectors it stores satisfy \<open>tree_ok\<close>.
\<close>

subsection \<open>Paths\<close>

lemma is_rpath_nonempty: "is_rpath g p \<Longrightarrow> p \<noteq> []"
  by (cases p) simp_all

lemma is_rpath_hd: "is_rpath g p \<Longrightarrow> hd p < m_Order g"
  by (induction g p rule: is_rpath.induct) simp_all

lemma is_rpath_Cons:
  "is_rpath g p \<Longrightarrow> is_rpath g (v # p) \<longleftrightarrow> v < m_Order g \<and> m_AdjacencyMatrix g ! hd p ! v"
  by (cases p) simp_all

lemma rpath_weight_Cons:
  "p \<noteq> [] \<Longrightarrow> rpath_weight g (v # p) = rpath_weight g p + m_DistanceMatrix g ! hd p ! v"
  by (cases p) simp_all

lemma is_rpath_bounds: "is_rpath g p \<Longrightarrow> set p \<subseteq> {..<m_Order g}"
  by (induction g p rule: is_rpath.induct) auto

lemma rpath_weight_nonneg:
  assumes "adjacency_ok g" "is_rpath g p"
  shows "0 \<le> rpath_weight g p"
  using assms
proof (induction g p rule: is_rpath.induct)
  case (3 g v u p)
  then have "u < m_Order g" "v < m_Order g" "m_AdjacencyMatrix g ! u ! v"
    using is_rpath_hd [of g "u # p"] by simp_all
  with 3(2) have "0 \<le> m_DistanceMatrix g ! u ! v"
    unfolding adjacency_ok_def by blast
  with 3 show ?case by simp
qed simp_all

subsection \<open>The closest vertex and the relaxation\<close>

lemma scan_fold_least:
  assumes "(snd acc = - 1 \<and> (\<forall>i\<in>S. known ! i \<or> sd ! i = - 1))
     \<or> (\<not> known ! fst acc \<and> sd ! fst acc \<noteq> - 1 \<and> snd acc = sd ! fst acc
          \<and> (\<forall>i\<in>S. \<not> known ! i \<and> sd ! i \<noteq> - 1 \<longrightarrow> snd acc \<le> sd ! i))"
  shows "(snd (fold (scan_step sd known) is acc) = - 1
          \<and> (\<forall>i\<in>S \<union> set is. known ! i \<or> sd ! i = - 1))
     \<or> (\<forall>i\<in>S \<union> set is. \<not> known ! i \<and> sd ! i \<noteq> - 1 \<longrightarrow>
           sd ! fst (fold (scan_step sd known) is acc) \<le> sd ! i)"
  using assms
proof (induction "is" arbitrary: acc S)
  case Nil
  then show ?case by auto
next
  case (Cons i rest)
  let ?acc = "scan_step sd known i acc"
  have "(snd ?acc = - 1 \<and> (\<forall>j\<in>insert i S. known ! j \<or> sd ! j = - 1))
     \<or> (\<not> known ! fst ?acc \<and> sd ! fst ?acc \<noteq> - 1 \<and> snd ?acc = sd ! fst ?acc
          \<and> (\<forall>j\<in>insert i S. \<not> known ! j \<and> sd ! j \<noteq> - 1 \<longrightarrow> snd ?acc \<le> sd ! j))"
    using Cons.prems by (auto simp: scan_step_def)
  from Cons.IH [OF this] show ?case by simp
qed

text \<open>
  The scan returns a vertex whose distance is least among the unconfirmed vertices that
  have one.
\<close>

lemma find_next_least:
  assumes "i < n" "\<not> known ! i" "sd ! i \<noteq> - 1"
  shows "sd ! find_next n sd known \<le> sd ! i"
  using scan_fold_least [of "(UINT_MAX, - 1)" "{}" known sd "[0..<n]"] assms
  by (auto simp: find_next_def)

text \<open>
  The relaxation as a whole: a vertex gets the distance through \<open>nc\<close> exactly when it is
  unconfirmed, a neighbour of \<open>nc\<close>, and without a distance or with a larger one. The
  distance of \<open>nc\<close> itself does not change on the way, as \<open>nc\<close> is not its own neighbour.
\<close>

lemma relax_result:
  assumes "well_formed g" "nc < m_Order g" "\<not> m_AdjacencyMatrix g ! nc ! nc"
    "length sd = m_Order g" "length rt = m_Order g"
    "set is \<subseteq> {..<m_Order g}" "distinct is"
  shows "\<exists>sd' rt'. relax g nc known is (sd, rt) = Inr (sd', rt')
     \<and> length sd' = m_Order g \<and> length rt' = m_Order g
     \<and> (\<forall>v<m_Order g.
          if v \<in> set is \<and> \<not> known ! v \<and> m_AdjacencyMatrix g ! nc ! v
             \<and> (sd ! v = - 1 \<or> dadd (sd ! nc) (m_DistanceMatrix g ! nc ! v) < sd ! v)
          then sd' ! v = dadd (sd ! nc) (m_DistanceMatrix g ! nc ! v) \<and> rt' ! v = nc
          else sd' ! v = sd ! v \<and> rt' ! v = rt ! v)"
  using assms(4-7)
proof (induction "is" arbitrary: sd rt)
  case Nil
  then show ?case by simp
next
  case (Cons i rest)
  let ?n = "m_Order g"
  from Cons.prems have i: "i < ?n" and rest: "set rest \<subseteq> {..<?n}"
    and dist: "distinct rest" and fresh: "i \<notin> set rest"
    by auto
  note rd = well_formed_reads [OF assms(1) assms(2) i]
  let ?d = "dadd (sd ! nc) (m_DistanceMatrix g ! nc ! i)"
  have via: "via_dist g nc sd i = Inr ?d"
    using Cons.prems(1) assms(2) rd(2) by (simp add: via_dist_def vget_def)
  let ?upd = "\<not> known ! i \<and> m_AdjacencyMatrix g ! nc ! i \<and> (sd ! i = - 1 \<or> ?d < sd ! i)"
  show ?case
  proof (cases ?upd)
    case False
    have run: "relax g nc known (i # rest) (sd, rt) = relax g nc known rest (sd, rt)"
      using False rd(1) via by (auto split: bool.splits)
    from Cons.IH [OF Cons.prems(1,2) rest dist]
    obtain sd' rt' where r: "relax g nc known rest (sd, rt) = Inr (sd', rt')"
      "length sd' = ?n" "length rt' = ?n"
      and f: "\<forall>v<?n. if v \<in> set rest \<and> \<not> known ! v \<and> m_AdjacencyMatrix g ! nc ! v
             \<and> (sd ! v = - 1 \<or> dadd (sd ! nc) (m_DistanceMatrix g ! nc ! v) < sd ! v)
          then sd' ! v = dadd (sd ! nc) (m_DistanceMatrix g ! nc ! v) \<and> rt' ! v = nc
          else sd' ! v = sd ! v \<and> rt' ! v = rt ! v"
      by blast
    have "\<forall>v<?n. if v \<in> set (i # rest) \<and> \<not> known ! v \<and> m_AdjacencyMatrix g ! nc ! v
             \<and> (sd ! v = - 1 \<or> dadd (sd ! nc) (m_DistanceMatrix g ! nc ! v) < sd ! v)
          then sd' ! v = dadd (sd ! nc) (m_DistanceMatrix g ! nc ! v) \<and> rt' ! v = nc
          else sd' ! v = sd ! v \<and> rt' ! v = rt ! v"
    proof (intro allI impI)
      fix v assume v: "v < ?n"
      show "if v \<in> set (i # rest) \<and> \<not> known ! v \<and> m_AdjacencyMatrix g ! nc ! v
             \<and> (sd ! v = - 1 \<or> dadd (sd ! nc) (m_DistanceMatrix g ! nc ! v) < sd ! v)
          then sd' ! v = dadd (sd ! nc) (m_DistanceMatrix g ! nc ! v) \<and> rt' ! v = nc
          else sd' ! v = sd ! v \<and> rt' ! v = rt ! v"
      proof (cases "v = i")
        case True
        with f v fresh False show ?thesis by auto
      next
        case ne: False
        with f v show ?thesis by auto
      qed
    qed
    with run r show ?thesis by auto
  next
    case True
    then have inc: "i \<noteq> nc" using assms(3) by auto
    have run: "relax g nc known (i # rest) (sd, rt)
        = relax g nc known rest (sd[i := ?d], rt[i := nc])"
      using True rd(1) via by auto
    have len: "length (sd[i := ?d]) = ?n" "length (rt[i := nc]) = ?n"
      using Cons.prems(1,2) by simp_all
    from Cons.IH [OF len rest dist]
    obtain sd' rt' where r: "relax g nc known rest (sd[i := ?d], rt[i := nc]) = Inr (sd', rt')"
      "length sd' = ?n" "length rt' = ?n"
      and f: "\<forall>v<?n. if v \<in> set rest \<and> \<not> known ! v \<and> m_AdjacencyMatrix g ! nc ! v
             \<and> (sd[i := ?d] ! v = - 1
                  \<or> dadd (sd[i := ?d] ! nc) (m_DistanceMatrix g ! nc ! v) < sd[i := ?d] ! v)
          then sd' ! v = dadd (sd[i := ?d] ! nc) (m_DistanceMatrix g ! nc ! v) \<and> rt' ! v = nc
          else sd' ! v = sd[i := ?d] ! v \<and> rt' ! v = rt[i := nc] ! v"
      by blast
    have nc_same: "sd[i := ?d] ! nc = sd ! nc"
      using inc by simp
    have "\<forall>v<?n. if v \<in> set (i # rest) \<and> \<not> known ! v \<and> m_AdjacencyMatrix g ! nc ! v
             \<and> (sd ! v = - 1 \<or> dadd (sd ! nc) (m_DistanceMatrix g ! nc ! v) < sd ! v)
          then sd' ! v = dadd (sd ! nc) (m_DistanceMatrix g ! nc ! v) \<and> rt' ! v = nc
          else sd' ! v = sd ! v \<and> rt' ! v = rt ! v"
    proof (intro allI impI)
      fix v assume v: "v < ?n"
      show "if v \<in> set (i # rest) \<and> \<not> known ! v \<and> m_AdjacencyMatrix g ! nc ! v
             \<and> (sd ! v = - 1 \<or> dadd (sd ! nc) (m_DistanceMatrix g ! nc ! v) < sd ! v)
          then sd' ! v = dadd (sd ! nc) (m_DistanceMatrix g ! nc ! v) \<and> rt' ! v = nc
          else sd' ! v = sd ! v \<and> rt' ! v = rt ! v"
      proof (cases "v = i")
        case True
        from f [rule_format, OF v] True fresh Cons.prems(1,2) i \<open>?upd\<close>
        show ?thesis by simp
      next
        case ne: False
        from f [rule_format, OF v] ne nc_same show ?thesis
          by simp
      qed
    qed
    with run r show ?thesis by auto
  qed
qed

subsection \<open>The invariant of the main loop\<close>

lemma loop_invD:
  assumes "loop_inv g r sd rt known"
  shows "length sd = m_Order g" "length rt = m_Order g" "length known = m_Order g"
    "r < m_Order g" "known ! r"
    and "\<And>v. v < m_Order g \<Longrightarrow> v \<noteq> r \<Longrightarrow> sd ! v = - 1 \<Longrightarrow> rt ! v = UINT_MAX"
    and "\<And>v. v < m_Order g \<Longrightarrow> v \<noteq> r \<Longrightarrow> sd ! v \<noteq> - 1 \<Longrightarrow>
           \<exists>p. is_rpath g p \<and> hd p = v \<and> last p = r \<and> distinct p
               \<and> (\<forall>u\<in>set (tl p). known ! u) \<and> rpath_weight g p = sd ! v"
    and "\<And>v. v < m_Order g \<Longrightarrow> v \<noteq> r \<Longrightarrow> known ! v \<Longrightarrow> sd ! v \<noteq> - 1"
    and "\<And>v p. v < m_Order g \<Longrightarrow> v \<noteq> r \<Longrightarrow> known ! v \<Longrightarrow> is_rpath g p \<Longrightarrow> hd p = v
           \<Longrightarrow> last p = r \<Longrightarrow> sd ! v \<le> rpath_weight g p"
    and "\<And>u v. u < m_Order g \<Longrightarrow> v < m_Order g \<Longrightarrow> known ! u \<Longrightarrow> \<not> known ! v
           \<Longrightarrow> m_AdjacencyMatrix g ! u ! v
           \<Longrightarrow> sd ! v \<noteq> - 1
               \<and> sd ! v \<le> (if u = r then 0 else sd ! u) + m_DistanceMatrix g ! u ! v"
    and "\<And>u v. u < m_Order g \<Longrightarrow> v < m_Order g \<Longrightarrow> known ! u \<Longrightarrow> u \<noteq> r \<Longrightarrow> \<not> known ! v
           \<Longrightarrow> sd ! v \<noteq> - 1 \<Longrightarrow> sd ! u \<le> sd ! v"
proof -
  note u = assms [unfolded loop_inv_def]
  note t1 = u [THEN conjunct2]
  note t2 = t1 [THEN conjunct2]
  note t3 = t2 [THEN conjunct2]
  note t4 = t3 [THEN conjunct2]
  note t5 = t4 [THEN conjunct2]
  note t6 = t5 [THEN conjunct2]
  note A = t5 [THEN conjunct1, rule_format]
  note B = t6 [THEN conjunct1, rule_format]
  note C = t6 [THEN conjunct2, rule_format]
  show "length sd = m_Order g" by (rule u [THEN conjunct1])
  show "length rt = m_Order g" by (rule t1 [THEN conjunct1])
  show "length known = m_Order g" by (rule t2 [THEN conjunct1])
  show "r < m_Order g" by (rule t3 [THEN conjunct1])
  show "known ! r" by (rule t4 [THEN conjunct1])
  show "rt ! v = UINT_MAX" if "v < m_Order g" "v \<noteq> r" "sd ! v = - 1" for v
    using A [OF that(1,2)] that(3) by blast
  show "\<exists>p. is_rpath g p \<and> hd p = v \<and> last p = r \<and> distinct p
               \<and> (\<forall>u\<in>set (tl p). known ! u) \<and> rpath_weight g p = sd ! v"
    if "v < m_Order g" "v \<noteq> r" "sd ! v \<noteq> - 1" for v
    using A [OF that(1,2)] that(3) by blast
  show "sd ! v \<noteq> - 1" if "v < m_Order g" "v \<noteq> r" "known ! v" for v
    using A [OF that(1,2)] that(3) by blast
  show "sd ! v \<le> rpath_weight g p"
    if "v < m_Order g" "v \<noteq> r" "known ! v" "is_rpath g p" "hd p = v" "last p = r" for v p
    using A [OF that(1,2)] that(3-6) by blast
  show "sd ! v \<noteq> - 1
      \<and> sd ! v \<le> (if u = r then 0 else sd ! u) + m_DistanceMatrix g ! u ! v"
    if "u < m_Order g" "v < m_Order g" "known ! u" "\<not> known ! v" "m_AdjacencyMatrix g ! u ! v"
    for u v
    using B [OF that(1,2)] that(3-5) by blast
  show "sd ! u \<le> sd ! v"
    if "u < m_Order g" "v < m_Order g" "known ! u" "u \<noteq> r" "\<not> known ! v" "sd ! v \<noteq> - 1"
    for u v
    using C [OF that(1,2)] that(3-6) by blast
qed

lemma loop_invI:
  assumes "length sd = m_Order g" "length rt = m_Order g" "length known = m_Order g"
    "r < m_Order g" "known ! r"
    and "\<And>v. v < m_Order g \<Longrightarrow> v \<noteq> r \<Longrightarrow> sd ! v = - 1 \<Longrightarrow> rt ! v = UINT_MAX"
    and "\<And>v. v < m_Order g \<Longrightarrow> v \<noteq> r \<Longrightarrow> sd ! v \<noteq> - 1 \<Longrightarrow>
           \<exists>p. is_rpath g p \<and> hd p = v \<and> last p = r \<and> distinct p
               \<and> (\<forall>u\<in>set (tl p). known ! u) \<and> rpath_weight g p = sd ! v"
    and "\<And>v. v < m_Order g \<Longrightarrow> v \<noteq> r \<Longrightarrow> known ! v \<Longrightarrow> sd ! v \<noteq> - 1"
    and "\<And>v p. v < m_Order g \<Longrightarrow> v \<noteq> r \<Longrightarrow> known ! v \<Longrightarrow> is_rpath g p \<Longrightarrow> hd p = v
           \<Longrightarrow> last p = r \<Longrightarrow> sd ! v \<le> rpath_weight g p"
    and "\<And>u v. u < m_Order g \<Longrightarrow> v < m_Order g \<Longrightarrow> known ! u \<Longrightarrow> \<not> known ! v
           \<Longrightarrow> m_AdjacencyMatrix g ! u ! v
           \<Longrightarrow> sd ! v \<noteq> - 1
               \<and> sd ! v \<le> (if u = r then 0 else sd ! u) + m_DistanceMatrix g ! u ! v"
    and "\<And>u v. u < m_Order g \<Longrightarrow> v < m_Order g \<Longrightarrow> known ! u \<Longrightarrow> u \<noteq> r \<Longrightarrow> \<not> known ! v
           \<Longrightarrow> sd ! v \<noteq> - 1 \<Longrightarrow> sd ! u \<le> sd ! v"
  shows "loop_inv g r sd rt known"
  unfolding loop_inv_def
proof (intro conjI allI impI)
  fix v p assume "v < m_Order g" "v \<noteq> r" "known ! v" "is_rpath g p \<and> hd p = v \<and> last p = r"
  with assms(9) show "sd ! v \<le> rpath_weight g p" by blast
next
  fix u v assume "u < m_Order g" "v < m_Order g"
    "known ! u \<and> \<not> known ! v \<and> m_AdjacencyMatrix g ! u ! v"
  with assms(10) [of u v]
  show "sd ! v \<noteq> - 1" "sd ! v \<le> (if u = r then 0 else sd ! u) + m_DistanceMatrix g ! u ! v"
    by blast+
next
  fix u v assume "u < m_Order g" "v < m_Order g"
    "known ! u \<and> u \<noteq> r \<and> \<not> known ! v \<and> sd ! v \<noteq> - 1"
  with assms(11) [of u v] show "sd ! u \<le> sd ! v" by blast
qed (use assms(1-8) in blast)+

lemma adjacency_okD:
  assumes "adjacency_ok g" "u < m_Order g" "v < m_Order g" "m_AdjacencyMatrix g ! u ! v"
  shows "0 \<le> m_DistanceMatrix g ! u ! v" "u \<noteq> v"
  using assms unfolding adjacency_ok_def by blast+

lemma rpath_known_bound:
  assumes "adjacency_ok g" "loop_inv g r sd rt known"
    and "is_rpath g p" "last p = r" "known ! hd p"
  shows "(if hd p = r then 0 else sd ! hd p) \<le> rpath_weight g p"
proof (cases "hd p = r")
  case True
  with rpath_weight_nonneg [OF assms(1,3)] show ?thesis by simp
next
  case False
  from loop_invD(9) [OF assms(2) is_rpath_hd [OF assms(3)] False assms(5) assms(3) refl assms(4)]
    False
  show ?thesis by simp
qed

text \<open>
  A path from the start vertex to an unconfirmed vertex leaves the set of confirmed
  vertices somewhere: the first vertex outside has a distance, and the path weighs at
  least that much.
\<close>

lemma rpath_unknown_bound:
  assumes adj: "adjacency_ok g" and inv: "loop_inv g r sd rt known"
    and "is_rpath g p" "last p = r" "\<not> known ! hd p"
  shows "\<exists>y<m_Order g. \<not> known ! y \<and> sd ! y \<noteq> - 1 \<and> sd ! y \<le> rpath_weight g p"
  using assms(3-5)
proof (induction p)
  case Nil
  then show ?case by simp
next
  case (Cons v q)
  show ?case
  proof (cases q)
    case Nil
    with Cons.prems loop_invD(5) [OF inv] show ?thesis by simp
  next
    case (Cons u q')
    from Cons.prems(1) have v: "v < m_Order g" and e: "m_AdjacencyMatrix g ! u ! v"
      and q: "is_rpath g q"
      by (simp_all add: Cons)
    have u: "u < m_Order g"
      using is_rpath_hd [OF q] by (simp add: Cons)
    have lq: "last q = r"
      using Cons.prems(2) by (simp add: Cons)
    have w: "rpath_weight g (v # q) = rpath_weight g q + m_DistanceMatrix g ! u ! v"
      by (simp add: Cons)
    note ed = adjacency_okD [OF adj u v e]
    show ?thesis
    proof (cases "known ! u")
      case True
      from rpath_known_bound [OF adj inv q lq] True
      have "(if u = r then 0 else sd ! u) \<le> rpath_weight g q"
        by (auto simp: Cons split: if_splits)
      moreover from loop_invD(10) [OF inv u v True _ e] Cons.prems(3)
      have "sd ! v \<noteq> - 1"
        "sd ! v \<le> (if u = r then 0 else sd ! u) + m_DistanceMatrix g ! u ! v"
        by simp_all
      ultimately have "sd ! v \<noteq> - 1 \<and> sd ! v \<le> rpath_weight g (v # q)"
        unfolding w by linarith
      with v Cons.prems(3) show ?thesis by auto
    next
      case False
      then have "\<not> known ! hd q" by (simp add: Cons)
      from Cons.IH [OF q lq this]
      obtain y where "y < m_Order g" "\<not> known ! y" "sd ! y \<noteq> - 1" "sd ! y \<le> rpath_weight g q"
        by blast
      moreover have "rpath_weight g q \<le> rpath_weight g (v # q)"
        unfolding w using ed(1) by simp
      ultimately show ?thesis
        by (intro exI [of _ y]) auto
    qed
  qed
qed

text \<open>
  One round of the main loop keeps the invariant. This is where \<open>exact_sums\<close> enters: the
  sum formed for an unconfirmed neighbour \<open>v\<close> of \<open>nc\<close> is the weight of the path of
  \<open>nc\<close> extended by \<open>v\<close>, a path without repetition, so the sum is not rounded.
\<close>

lemma loop_inv_step:
  assumes wf: "well_formed g" and adj: "adjacency_ok g" and ex: "exact_sums g"
    and inv: "loop_inv g r sd rt known"
    and cand: "\<exists>i<m_Order g. \<not> known ! i \<and> sd ! i \<noteq> - 1"
  defines "nc \<equiv> find_next (m_Order g) sd known"
  shows "\<exists>sd' rt'. relax g nc known [0..<m_Order g] (sd, rt) = Inr (sd', rt')
      \<and> loop_inv g r sd' rt' (known[nc := True])"
proof -
  let ?n = "m_Order g"
  let ?M = "m_DistanceMatrix g"
  let ?A = "m_AdjacencyMatrix g"
  note I = loop_invD [OF inv]
  note c = find_next_candidate [OF cand, folded nc_def]
  have least: "sd ! nc \<le> sd ! i" if "i < ?n" "\<not> known ! i" "sd ! i \<noteq> - 1" for i
    unfolding nc_def by (rule find_next_least [OF that])
  have ncr: "nc \<noteq> r"
    using c(2) I(5) by auto
  have diag: "\<not> ?A ! nc ! nc"
    using adjacency_okD(2) [OF adj c(1) c(1)] by auto
  from I(7) [OF c(1) ncr c(3)]
  obtain pn where pn: "is_rpath g pn" "hd pn = nc" "last pn = r" "distinct pn"
    "\<forall>u\<in>set (tl pn). known ! u" "rpath_weight g pn = sd ! nc"
    by blast
  have pn_ne: "pn \<noteq> []"
    by (rule is_rpath_nonempty [OF pn(1)])
  have pn_set: "set pn = insert nc (set (tl pn))"
    using pn_ne pn(2) by (cases pn) auto
  have nc0: "0 \<le> sd ! nc"
    using rpath_weight_nonneg [OF adj pn(1)] pn(6) by simp
  have ext: "is_rpath g (v # pn) \<and> distinct (v # pn)
      \<and> rpath_weight g (v # pn) = sd ! nc + ?M ! nc ! v
      \<and> dadd (sd ! nc) (?M ! nc ! v) = sd ! nc + ?M ! nc ! v"
    if "v < ?n" "\<not> known ! v" "?A ! nc ! v" for v
  proof -
    have "v \<noteq> nc"
      using adjacency_okD(2) [OF adj c(1) that(1) that(3)] by simp
    with that(2) pn(5) have "v \<notin> set pn"
      unfolding pn_set by auto
    with pn(4) have d: "distinct (v # pn)" by simp
    have p: "is_rpath g (v # pn)"
      using is_rpath_Cons [OF pn(1)] that pn(2) by simp
    have w: "rpath_weight g (v # pn) = sd ! nc + ?M ! nc ! v"
      using rpath_weight_Cons [OF pn_ne] pn(2,6) by simp
    from ex p d have "round53 (rpath_weight g (v # pn)) = rpath_weight g (v # pn)"
      unfolding exact_sums_def by blast
    with w have "dadd (sd ! nc) (?M ! nc ! v) = sd ! nc + ?M ! nc ! v"
      by (simp add: dadd_def)
    with p d w show ?thesis by simp
  qed
  have sub: "set [0..<?n] \<subseteq> {..<?n}" "distinct [0..<?n]"
    by auto
  from relax_result [OF wf c(1) diag I(1) I(2) sub, of known]
  obtain sd' rt' where rel: "relax g nc known [0..<?n] (sd, rt) = Inr (sd', rt')"
    "length sd' = ?n" "length rt' = ?n"
    and f: "\<forall>v<?n. if v \<in> set [0..<?n] \<and> \<not> known ! v \<and> ?A ! nc ! v
             \<and> (sd ! v = - 1 \<or> dadd (sd ! nc) (?M ! nc ! v) < sd ! v)
          then sd' ! v = dadd (sd ! nc) (?M ! nc ! v) \<and> rt' ! v = nc
          else sd' ! v = sd ! v \<and> rt' ! v = rt ! v"
    by blast
  define upd where
    "upd v \<longleftrightarrow> \<not> known ! v \<and> ?A ! nc ! v \<and> (sd ! v = - 1 \<or> sd ! nc + ?M ! nc ! v < sd ! v)" for v
  have f': "if upd v then sd' ! v = sd ! nc + ?M ! nc ! v \<and> rt' ! v = nc
      else sd' ! v = sd ! v \<and> rt' ! v = rt ! v" if "v < ?n" for v
  proof (cases "\<not> known ! v \<and> ?A ! nc ! v")
    case True
    with ext [OF that] have "dadd (sd ! nc) (?M ! nc ! v) = sd ! nc + ?M ! nc ! v"
      by simp
    with f [rule_format, OF that] that show ?thesis
      by (simp add: upd_def)
  next
    case False
    with f [rule_format, OF that] that show ?thesis
      by (auto simp: upd_def)
  qed
  have new: "sd' ! v = sd ! nc + ?M ! nc ! v" "rt' ! v = nc" if "v < ?n" "upd v" for v
    using f' [OF that(1)] that(2) by simp_all
  have old: "sd' ! v = sd ! v" "rt' ! v = rt ! v" if "v < ?n" "\<not> upd v" for v
    using f' [OF that(1)] that(2) by simp_all
  have not_upd: "\<not> upd v" if "known ! v \<or> v = nc" for v
    using that diag by (auto simp: upd_def)
  let ?K = "known[nc := True]"
  have K: "?K ! v \<longleftrightarrow> known ! v \<or> v = nc" for v
    using c(1) I(3) by (auto simp: nth_list_update)
  have new_ge: "0 \<le> sd' ! v" "sd ! nc \<le> sd' ! v" if "v < ?n" "upd v" for v
  proof -
    from that(2) have "?A ! nc ! v" by (simp add: upd_def)
    from adjacency_okD(1) [OF adj c(1) that(1) this] new(1) [OF that] nc0
    show "0 \<le> sd' ! v" "sd ! nc \<le> sd' ! v" by simp_all
  qed
  have inv': "loop_inv g r sd' rt' ?K"
  proof (rule loop_invI)
    show "length sd' = ?n" "length rt' = ?n" by (rule rel(2), rule rel(3))
    show "length ?K = ?n" using I(3) by simp
    show "r < ?n" by (rule I(4))
    show "?K ! r" using I(5) by (simp add: K)
  next
    fix v assume v: "v < ?n" "v \<noteq> r" "sd' ! v = - 1"
    show "rt' ! v = UINT_MAX"
    proof (cases "upd v")
      case True
      with new_ge(1) [OF v(1)] v(3) show ?thesis by simp
    next
      case False
      with old [OF v(1)] v(3) I(6) [OF v(1,2)] show ?thesis by simp
    qed
  next
    fix v assume v: "v < ?n" "v \<noteq> r" "sd' ! v \<noteq> - 1"
    show "\<exists>p. is_rpath g p \<and> hd p = v \<and> last p = r \<and> distinct p
               \<and> (\<forall>u\<in>set (tl p). ?K ! u) \<and> rpath_weight g p = sd' ! v"
    proof (cases "upd v")
      case True
      then have "\<not> known ! v" "?A ! nc ! v" by (simp_all add: upd_def)
      from ext [OF v(1) this] new(1) [OF v(1) True] pn(3,5) pn_ne pn_set
      show ?thesis
        by (intro exI [of _ "v # pn"]) (auto simp: K)
    next
      case False
      with old(1) [OF v(1)] v(3) have "sd ! v \<noteq> - 1" "sd' ! v = sd ! v" by simp_all
      from I(7) [OF v(1,2) this(1)] this(2) show ?thesis
        by (auto simp: K)
    qed
  next
    fix v assume v: "v < ?n" "v \<noteq> r" "?K ! v"
    then have kv: "known ! v \<or> v = nc" by (simp add: K)
    from old(1) [OF v(1) not_upd [OF kv]] have same: "sd' ! v = sd ! v" .
    show "sd' ! v \<noteq> - 1"
      using kv I(8) [OF v(1,2)] c(3) same by auto
  next
    fix v p assume v: "v < ?n" "v \<noteq> r" "?K ! v"
      and p: "is_rpath g p" "hd p = v" "last p = r"
    from v(3) have kv: "known ! v \<or> v = nc" by (simp add: K)
    from old(1) [OF v(1) not_upd [OF kv]] have same: "sd' ! v = sd ! v" .
    show "sd' ! v \<le> rpath_weight g p"
    proof (cases "known ! v")
      case True
      from I(9) [OF v(1,2) True p] same show ?thesis by simp
    next
      case False
      with kv have vn: "v = nc" by simp
      from rpath_unknown_bound [OF adj inv p(1) p(3)] False p(2)
      obtain y where y: "y < ?n" "\<not> known ! y" "sd ! y \<noteq> - 1" "sd ! y \<le> rpath_weight g p"
        by auto
      from least [OF y(1-3)] y(4) same vn show ?thesis by simp
    qed
  next
    fix u v assume uv: "u < ?n" "v < ?n" "?K ! u" "\<not> ?K ! v" "?A ! u ! v"
    from uv(3) have ku: "known ! u \<or> u = nc" by (simp add: K)
    from uv(4) have kv: "\<not> known ! v" "v \<noteq> nc" by (simp_all add: K)
    from old(1) [OF uv(1) not_upd [OF ku]] have su: "sd' ! u = sd ! u" .
    show "sd' ! v \<noteq> - 1 \<and> sd' ! v \<le> (if u = r then 0 else sd' ! u) + ?M ! u ! v"
    proof (cases "known ! u")
      case True
      from I(10) [OF uv(1,2) True kv(1) uv(5)]
      have o: "sd ! v \<noteq> - 1" "sd ! v \<le> (if u = r then 0 else sd ! u) + ?M ! u ! v"
        by simp_all
      show ?thesis
      proof (cases "upd v")
        case True
        with o(1) have "sd ! nc + ?M ! nc ! v < sd ! v" by (simp add: upd_def)
        with new(1) [OF uv(2) True] new_ge(1) [OF uv(2) True] o(2) su show ?thesis
          by auto
      next
        case False
        with old(1) [OF uv(2)] o su show ?thesis by (auto split: if_splits)
      qed
    next
      case False
      with ku have un: "u = nc" by simp
      show ?thesis
      proof (cases "upd v")
        case True
        with new(1) [OF uv(2) True] new_ge(1) [OF uv(2) True] su un ncr show ?thesis
          by auto
      next
        case False
        with kv(1) uv(5) un have "sd ! v \<noteq> - 1" "\<not> sd ! nc + ?M ! nc ! v < sd ! v"
          by (auto simp: upd_def)
        with old(1) [OF uv(2) False] su un ncr show ?thesis by auto
      qed
    qed
  next
    fix u v assume uv: "u < ?n" "v < ?n" "?K ! u" "u \<noteq> r" "\<not> ?K ! v" "sd' ! v \<noteq> - 1"
    from uv(3) have ku: "known ! u \<or> u = nc" by (simp add: K)
    from uv(5) have kv: "\<not> known ! v" "v \<noteq> nc" by (simp_all add: K)
    from old(1) [OF uv(1) not_upd [OF ku]] have su: "sd' ! u = sd ! u" .
    have u_nc: "sd ! u \<le> sd ! nc"
    proof (cases "known ! u")
      case True
      from I(11) [OF uv(1) c(1) True uv(4) c(2) c(3)] show ?thesis .
    next
      case False
      with ku show ?thesis by simp
    qed
    show "sd' ! u \<le> sd' ! v"
    proof (cases "upd v")
      case True
      from new_ge(2) [OF uv(2) True] u_nc su show ?thesis by simp
    next
      case False
      from old(1) [OF uv(2) False] uv(6) have sv: "sd' ! v = sd ! v" "sd ! v \<noteq> - 1"
        by simp_all
      from least [OF uv(2) kv(1) sv(2)] u_nc sv(1) su show ?thesis by simp
    qed
  qed
  with rel(1) show ?thesis by blast
qed

lemma loop_inv_final:
  assumes adj: "adjacency_ok g" and inv: "loop_inv g r sd rt known"
    and fin: "\<forall>i<m_Order g. known ! i \<or> sd ! i = - 1"
  shows "tree_ok g r sd rt"
proof -
  note I = loop_invD [OF inv]
  have "(sd ! v = - 1 \<longrightarrow> rt ! v = UINT_MAX)
      \<and> (sd ! v \<noteq> - 1 \<longrightarrow>
           (\<exists>p. is_rpath g p \<and> hd p = v \<and> last p = r \<and> rpath_weight g p = sd ! v))
      \<and> (\<forall>p. is_rpath g p \<and> hd p = v \<and> last p = r \<longrightarrow>
           sd ! v \<noteq> - 1 \<and> sd ! v \<le> rpath_weight g p)"
    if v: "v < m_Order g" "v \<noteq> r" for v
  proof (intro conjI impI allI)
    assume "sd ! v = - 1"
    from I(6) [OF v this] show "rt ! v = UINT_MAX" .
  next
    assume "sd ! v \<noteq> - 1"
    from I(7) [OF v this]
    show "\<exists>p. is_rpath g p \<and> hd p = v \<and> last p = r \<and> rpath_weight g p = sd ! v"
      by blast
  next
    fix p assume p: "is_rpath g p \<and> hd p = v \<and> last p = r"
    have kv: "known ! v"
    proof (rule ccontr)
      assume "\<not> known ! v"
      with rpath_unknown_bound [OF adj inv, of p] p fin show False
        by auto
    qed
    from I(8) [OF v kv] show "sd ! v \<noteq> - 1" .
    from I(9) [OF v kv] p show "sd ! v \<le> rpath_weight g p" by blast
  qed
  with I(1,2) show ?thesis
    unfolding tree_ok_def by blast
qed

text \<open>
  The main loop returns, and its result is correct for the start vertex.
\<close>

lemma Dijkstra_loop_tree:
  assumes wf: "well_formed g" and adj: "adjacency_ok g" and ex: "exact_sums g"
    and "loop_inv g r sd rt known" "\<exists>i<m_Order g. \<not> known ! i \<and> sd ! i \<noteq> - 1"
  shows "\<exists>sd' rt'. Dijkstra_loop g sd rt known = Some (Inr (sd', rt')) \<and> tree_ok g r sd' rt'"
  using assms(4,5)
proof (induction "card {i. i < m_Order g \<and> \<not> known ! i}" arbitrary: sd rt known
    rule: less_induct)
  case less
  let ?n = "m_Order g"
  let ?nc = "find_next ?n sd known"
  note nc = find_next_candidate [OF less.prems(2)]
  note I = loop_invD [OF less.prems(1)]
  from loop_inv_step [OF wf adj ex less.prems]
  obtain sd' rt' where rel: "relax g ?nc known [0..<?n] (sd, rt) = Inr (sd', rt')"
    and inv': "loop_inv g r sd' rt' (known[?nc := True])"
    by blast
  let ?known = "known[?nc := True]"
  have in_range: "?nc < length known"
    using nc(1) I(3) by simp
  have step: "Dijkstra_loop g sd rt known =
      (if more_vertices ?n sd' ?known then Dijkstra_loop g sd' rt' ?known
       else Some (Inr (sd', rt')))"
    by (subst Dijkstra_loop.simps) (simp add: rel in_range)
  show ?case
  proof (cases "more_vertices ?n sd' ?known")
    case False
    then have "\<forall>i<?n. ?known ! i \<or> sd' ! i = - 1"
      by (auto simp: more_vertices_def list_ex_iff)
    from loop_inv_final [OF adj inv' this] step False show ?thesis
      by simp
  next
    case True
    then have more: "\<exists>i<?n. \<not> ?known ! i \<and> sd' ! i \<noteq> - 1"
      by (auto simp: more_vertices_def list_ex_iff)
    have smaller: "card {i. i < ?n \<and> \<not> ?known ! i} < card {i. i < ?n \<and> \<not> known ! i}"
      by (rule unknown_card_less [OF nc(1) nc(2) I(3)])
    from less.hyps [OF smaller inv' more] step True show ?thesis
      by simp
  qed
qed

lemma Dijkstra_init_result:
  assumes "well_formed g" "s < m_Order g" "length sd = m_Order g" "length rt = m_Order g"
    "set is \<subseteq> {..<m_Order g}"
  shows "\<exists>sd' rt'. Dijkstra_init g s is (sd, rt) = Inr (sd', rt')
     \<and> length sd' = m_Order g \<and> length rt' = m_Order g
     \<and> (\<forall>i<m_Order g.
          if i \<in> set is \<and> (i = s \<or> m_AdjacencyMatrix g ! s ! i)
          then sd' ! i = m_DistanceMatrix g ! s ! i \<and> rt' ! i = s
          else sd' ! i = sd ! i \<and> rt' ! i = rt ! i)"
  using assms(3-5)
proof (induction "is" arbitrary: sd rt)
  case Nil
  then show ?case by simp
next
  case (Cons i rest)
  let ?n = "m_Order g"
  from Cons.prems have i: "i < ?n" and rest: "set rest \<subseteq> {..<?n}"
    by auto
  note rd = well_formed_reads [OF assms(1) assms(2) i]
  let ?d = "m_DistanceMatrix g ! s ! i"
  show ?case
  proof (cases "i = s \<or> m_AdjacencyMatrix g ! s ! i")
    case False
    then have run: "Dijkstra_init g s (i # rest) (sd, rt) = Dijkstra_init g s rest (sd, rt)"
      using rd by auto
    from Cons.IH [OF Cons.prems(1,2) rest] False show ?thesis
      unfolding run by auto
  next
    case True
    then have run: "Dijkstra_init g s (i # rest) (sd, rt)
        = Dijkstra_init g s rest (sd[i := ?d], rt[i := s])"
      using rd by auto
    have len: "length (sd[i := ?d]) = ?n" "length (rt[i := s]) = ?n"
      using Cons.prems(1,2) by simp_all
    from Cons.IH [OF len rest]
    obtain sd' rt' where r: "Dijkstra_init g s rest (sd[i := ?d], rt[i := s]) = Inr (sd', rt')"
      "length sd' = ?n" "length rt' = ?n"
      and f: "\<forall>j<?n. if j \<in> set rest \<and> (j = s \<or> m_AdjacencyMatrix g ! s ! j)
          then sd' ! j = m_DistanceMatrix g ! s ! j \<and> rt' ! j = s
          else sd' ! j = sd[i := ?d] ! j \<and> rt' ! j = rt[i := s] ! j"
      by blast
    have "\<forall>j<?n. if j \<in> set (i # rest) \<and> (j = s \<or> m_AdjacencyMatrix g ! s ! j)
          then sd' ! j = m_DistanceMatrix g ! s ! j \<and> rt' ! j = s
          else sd' ! j = sd ! j \<and> rt' ! j = rt ! j"
    proof (intro allI impI)
      fix j assume j: "j < ?n"
      show "if j \<in> set (i # rest) \<and> (j = s \<or> m_AdjacencyMatrix g ! s ! j)
          then sd' ! j = m_DistanceMatrix g ! s ! j \<and> rt' ! j = s
          else sd' ! j = sd ! j \<and> rt' ! j = rt ! j"
      proof (cases "j = i")
        case True
        from f [rule_format, OF j] True \<open>i = s \<or> m_AdjacencyMatrix g ! s ! i\<close> Cons.prems(1,2) i
        show ?thesis by (auto split: if_splits)
      next
        case False
        from f [rule_format, OF j] False show ?thesis by simp
      qed
    qed
    with run r show ?thesis by auto
  qed
qed

lemma loop_inv_init:
  assumes adj: "adjacency_ok g" and r: "r < m_Order g"
    and len: "length sd0 = m_Order g" "length rt0 = m_Order g"
    and f: "\<forall>i<m_Order g.
          if i = r \<or> m_AdjacencyMatrix g ! r ! i
          then sd0 ! i = m_DistanceMatrix g ! r ! i \<and> rt0 ! i = r
          else sd0 ! i = - 1 \<and> rt0 ! i = UINT_MAX"
  shows "loop_inv g r sd0 (rt0[r := r]) ((replicate (m_Order g) False)[r := True])"
proof (rule loop_invI)
  let ?n = "m_Order g"
  let ?K = "(replicate ?n False)[r := True]"
  have K: "?K ! v \<longleftrightarrow> v = r" if "v < ?n" for v
    using that r by (auto simp: nth_list_update)
  have nb: "sd0 ! v = m_DistanceMatrix g ! r ! v \<and> 0 \<le> sd0 ! v"
    if "v < ?n" "m_AdjacencyMatrix g ! r ! v" for v
    using f [rule_format, OF that(1)] that(2) adjacency_okD(1) [OF adj r that] by simp
  show "length sd0 = ?n" "length (rt0[r := r]) = ?n" "length ?K = ?n" "r < ?n" "?K ! r"
    using len r by simp_all
  show "rt0[r := r] ! v = UINT_MAX" if "v < ?n" "v \<noteq> r" "sd0 ! v = - 1" for v
    using f [rule_format, OF that(1)] that nb [OF that(1)] by (auto split: if_splits)
  show "\<exists>p. is_rpath g p \<and> hd p = v \<and> last p = r \<and> distinct p
               \<and> (\<forall>u\<in>set (tl p). ?K ! u) \<and> rpath_weight g p = sd0 ! v"
    if "v < ?n" "v \<noteq> r" "sd0 ! v \<noteq> - 1" for v
  proof -
    from f [rule_format, OF that(1)] that(2,3)
    have e: "m_AdjacencyMatrix g ! r ! v" "sd0 ! v = m_DistanceMatrix g ! r ! v"
      by (auto split: if_splits)
    with that r show ?thesis
      by (intro exI [of _ "[v, r]"]) (simp add: K)
  qed
  show "sd0 ! v \<noteq> - 1" if "v < ?n" "v \<noteq> r" "?K ! v" for v
    using that by (simp add: K)
  show "sd0 ! v \<le> rpath_weight g p" if "v < ?n" "v \<noteq> r" "?K ! v" for v p
    using that by (simp add: K)
  show "sd0 ! v \<noteq> - 1
      \<and> sd0 ! v \<le> (if u = r then 0 else sd0 ! u) + m_DistanceMatrix g ! u ! v"
    if "u < ?n" "v < ?n" "?K ! u" "\<not> ?K ! v" "m_AdjacencyMatrix g ! u ! v" for u v
  proof -
    from that have "u = r" by (simp add: K)
    with nb [OF that(2)] that(5) show ?thesis by auto
  qed
  show "sd0 ! u \<le> sd0 ! v"
    if "u < ?n" "v < ?n" "?K ! u" "u \<noteq> r" "\<not> ?K ! v" "sd0 ! v \<noteq> - 1" for u v
    using that by (simp add: K)
qed

text \<open>
  A run of \<^verbatim>\<open>InternalDijkstra\<close> that computes a new tree stores a correct one.
\<close>

lemma InternalDijkstra_tree:
  assumes wf: "well_formed g" and adj: "adjacency_ok g" and ex: "exact_sums g"
    and run: "InternalDijkstra g s = Some (Inr (k, g'))"
    and none: "map_of (m_DijkstraStartVertices g) s = None"
  shows "\<exists>sd rt. (k, g') = save_results g s sd rt \<and> tree_ok g s sd rt"
proof -
  let ?n = "m_Order g"
  have s: "s < ?n"
    using run by (auto simp: InternalDijkstra_def split: if_splits)
  have sub: "set [0..<?n] \<subseteq> {..<?n}" by auto
  from Dijkstra_init_result [OF wf s _ _ sub, of "replicate ?n (- 1)" "replicate ?n UINT_MAX"]
  obtain sd0 rt0 where init: "Dijkstra_init g s [0..<?n] (replicate ?n (- 1), replicate ?n UINT_MAX)
       = Inr (sd0, rt0)" "length sd0 = ?n" "length rt0 = ?n"
    and f: "\<forall>i<?n. if i \<in> set [0..<?n] \<and> (i = s \<or> m_AdjacencyMatrix g ! s ! i)
          then sd0 ! i = m_DistanceMatrix g ! s ! i \<and> rt0 ! i = s
          else sd0 ! i = replicate ?n (- 1) ! i \<and> rt0 ! i = replicate ?n UINT_MAX ! i"
    by auto
  from f have f': "\<forall>i<?n. if i = s \<or> m_AdjacencyMatrix g ! s ! i
          then sd0 ! i = m_DistanceMatrix g ! s ! i \<and> rt0 ! i = s
          else sd0 ! i = - 1 \<and> rt0 ! i = UINT_MAX"
    by auto
  let ?known = "(replicate ?n False)[s := True]"
  note inv = loop_inv_init [OF adj s init(2,3) f']
  from run s none init(1)
  obtain sd rt where loop: "Dijkstra_loop g sd0 (rt0[s := s]) ?known = Some (Inr (sd, rt))"
    and res: "(k, g') = save_results g s sd rt"
    by (auto simp: InternalDijkstra_def split: option.splits sum.splits)
  have cand: "\<exists>j<?n. \<not> ?known ! j \<and> sd0 ! j \<noteq> - 1"
  proof (rule ccontr)
    assume "\<not> ?thesis"
    then have "\<forall>j<?n. ?known ! j \<or> sd0 ! j = - 1" by blast
    from Dijkstra_loop_stuck [OF _ _ this, of "rt0[s := s]"] wf loop
    show False by (auto simp: well_formed_def)
  qed
  from Dijkstra_loop_tree [OF wf adj ex inv cand] loop res show ?thesis
    by auto
qed

section \<open>Symmetric matrices\<close>

subsection \<open>Graph states\<close>

lemma is_rpath_same_graph: "same_graph g g' \<Longrightarrow> is_rpath g' p = is_rpath g p"
  by (induction p rule: induct_list012) (simp_all add: same_graph_def)

lemma rpath_weight_same_graph: "same_graph g g' \<Longrightarrow> rpath_weight g' p = rpath_weight g p"
  by (induction p rule: induct_list012) (simp_all add: same_graph_def)

lemma same_graph_order: "same_graph g g' \<Longrightarrow> m_Order g' = m_Order g"
  by (simp add: same_graph_def)

lemma tree_ok_same_graph: "same_graph g g' \<Longrightarrow> tree_ok g' r sd rt = tree_ok g r sd rt"
  unfolding tree_ok_def
  by (simp add: is_rpath_same_graph rpath_weight_same_graph same_graph_order)

lemma exact_sums_same_graph: "same_graph g g' \<Longrightarrow> exact_sums g' = exact_sums g"
  unfolding exact_sums_def by (simp add: is_rpath_same_graph rpath_weight_same_graph)

lemma adjacency_ok_same_graph: "same_graph g g' \<Longrightarrow> adjacency_ok g' = adjacency_ok g"
  by (simp add: adjacency_ok_def same_graph_def)

lemma is_distance_same_graph: "same_graph g g' \<Longrightarrow> is_distance g' a b d = is_distance g a b d"
  unfolding is_distance_def
  by (simp add: is_rpath_same_graph rpath_weight_same_graph) (simp add: same_graph_def)

lemma trees_ok_save:
  assumes ok: "cache_ok g" and t: "trees_ok g" and new: "tree_ok g s sd rt"
  shows "trees_ok (snd (save_results g s sd rt))"
proof -
  let ?g = "snd (save_results g s sd rt)"
  have sg: "same_graph g ?g" by (rule same_graph_save)
  have len: "length (m_DijkstraOutputRoutes g) = length (m_DijkstraShortestDistances g)"
    using ok by (simp add: cache_ok_def)
  have "k < length (m_DijkstraOutputRoutes ?g)
      \<and> tree_ok ?g r (m_DijkstraShortestDistances ?g ! k) (m_DijkstraOutputRoutes ?g ! k)"
    if "map_of (m_DijkstraStartVertices ?g) r = Some k" for r k
  proof (cases "r = s")
    case True
    with that have "k = length (m_DijkstraOutputRoutes g)"
      by (simp add: save_results_eq update_conv')
    with new len True show ?thesis
      unfolding tree_ok_same_graph [OF sg] by (simp add: save_results_eq nth_append)
  next
    case False
    with that have m: "map_of (m_DijkstraStartVertices g) r = Some k"
      by (simp add: save_results_eq update_conv')
    with t have "k < length (m_DijkstraOutputRoutes g)"
      "tree_ok g r (m_DijkstraShortestDistances g ! k) (m_DijkstraOutputRoutes g ! k)"
      by (auto simp: trees_ok_def)
    with len show ?thesis
      unfolding tree_ok_same_graph [OF sg] by (simp add: save_results_eq nth_append)
  qed
  then show ?thesis
    unfolding trees_ok_def by blast
qed

lemma InternalShortestDistance_trees_ok:
  assumes wf: "well_formed g" and adj: "adjacency_ok g" and ex: "exact_sums g"
    and ok: "cache_ok g" and t: "trees_ok g"
    and run: "InternalShortestDistance g s e p = Some (Inr (d, r, g'))"
  shows "trees_ok g'"
  using run
proof (cases rule: InternalShortestDistance_cases)
  case (fresh k sd rt)
  let ?src = "if p then s else e"
  have none: "map_of (m_DijkstraStartVertices g) ?src = None"
    using fresh(1,2) by (cases p) (simp_all add: cached_def)
  from InternalDijkstra_tree [OF wf adj ex fresh(3) none]
  obtain sd' rt' where eq: "(k, g') = save_results g ?src sd' rt'"
    and tr: "tree_ok g ?src sd' rt'"
    by blast
  from eq have "g' = snd (save_results g ?src sd' rt')"
    by (metis snd_conv)
  with trees_ok_save [OF ok t tr] show ?thesis
    by simp
qed (simp_all add: t)

lemma reachable_trees_ok:
  assumes "reachable g0 g" "well_formed g0" "cache_ok g0" "adjacency_ok g0" "exact_sums g0"
    "trees_ok g0"
  shows "trees_ok g"
  using assms
proof (induction rule: reachable.induct)
  case reachable_refl
  then show ?case by simp
next
  case (reachable_step g1 a b p d r g2)
  then have t1: "trees_ok g1" by simp
  from reachable_invariants [OF reachable_step.hyps(1) reachable_step.prems(1,2)]
  have sg: "same_graph g0 g1" and ok: "cache_ok g1" by simp_all
  have wf: "well_formed g1"
    by (rule well_formed_same_graph [OF sg reachable_step.prems(1)])
  have adj: "adjacency_ok g1"
    using reachable_step.prems(3) by (simp add: adjacency_ok_same_graph [OF sg])
  have ex: "exact_sums g1"
    using reachable_step.prems(4) by (simp add: exact_sums_same_graph [OF sg])
  from reachable_step.hyps(2) obtain s e r0 where
    isd: "InternalShortestDistance g1 s e p = Some (Inr (d, r0, g2))"
    by (rule ShortestDistance_Inr)
  from InternalShortestDistance_trees_ok [OF wf adj ex ok t1 isd] show ?case .
qed

lemma CGraph_new_trees:
  assumes "CGraph_new dm labels = Inr g"
  shows "adjacency_ok g" "trees_ok g" "m_DistanceMatrix g = dm" "m_Order g = length dm"
proof -
  show "adjacency_ok g"
    unfolding adjacency_ok_def using constructed_adjacency [OF assms] by blast
  from CGraph_new_Inr(5) [OF assms]
  obtain adj where g: "g = \<lparr> m_Order = length dm, m_InternalToExternal = labels,
             m_ExternalToInternal = store_labels labels, m_DistanceMatrix = dm,
             m_AdjacencyMatrix = adj, m_DijkstraStartVertices = [],
             m_DijkstraOutputRoutes = [], m_DijkstraShortestDistances = [] \<rparr>"
    by blast
  show "trees_ok g" "m_DistanceMatrix g = dm" "m_Order g = length dm"
    by (simp_all add: trees_ok_def g)
qed

subsection \<open>The answer of a query\<close>

lemma walk_parents_no_parent:
  assumes "k < length routes" "length (routes ! k) = n" "n \<le> UINT_MAX" "x < n" "rv < n"
    "x \<noteq> rv" "routes ! k ! x = UINT_MAX"
  shows "walk_parents routes k rv [x] = Some (Inl UndefinedBehaviour)"
proof -
  have one: "walk_parents routes k rv [x] = walk_parents routes k rv [x, UINT_MAX]"
    using assms by (subst walk_parents.simps) (simp add: vget2_def vget_def)
  have "UINT_MAX \<noteq> rv" using assms(3,5) by simp
  then have two: "walk_parents routes k rv [x, UINT_MAX] = Some (Inl UndefinedBehaviour)"
    using assms by (subst walk_parents.simps) (simp add: vget2_def vget_def)
  from one two show ?thesis by simp
qed

lemma unwind_walk:
  assumes "map_of (m_DijkstraStartVertices g) (if b then x else y) = Some k"
    and "unwind b g x y = Some (Inr (d, r, g'))"
  shows "\<exists>w. walk_parents (m_DijkstraOutputRoutes g) k (if b then x else y) [if b then y else x]
      = Some (Inr w)"
  using assms(2) [unfolded unwind_cached [OF assms(1)]]
  by (auto split: option.splits sum.splits)

lemma answer_walk:
  assumes "InternalShortestDistance g s t p = Some (Inr (d, r, g1))"
  defines "rv \<equiv> if cached g t then t else if cached g s then s else if p then s else t"
  shows "\<exists>k w. map_of (m_DijkstraStartVertices g1) rv = Some k
       \<and> walk_parents (m_DijkstraOutputRoutes g1) k rv [if rv = t then s else t] = Some (Inr w)"
  using assms(1)
proof (cases rule: InternalShortestDistance_cases)
  case use_end
  then have rv: "rv = t" by (simp add: rv_def)
  from use_end(1) obtain k where k: "map_of (m_DijkstraStartVertices g) t = Some k"
    by (auto simp: cached_def)
  from unwind_walk [of g False s t k d r g] k use_end(3)
  obtain w where "walk_parents (m_DijkstraOutputRoutes g) k t [s] = Some (Inr w)" by auto
  with k rv use_end(2) show ?thesis by simp
next
  case use_start
  then have rv: "rv = s" "s \<noteq> t" by (auto simp: rv_def)
  from use_start(2) obtain k where k: "map_of (m_DijkstraStartVertices g) s = Some k"
    by (auto simp: cached_def)
  from unwind_walk [of g True s t k d r g] k use_start(4)
  obtain w where "walk_parents (m_DijkstraOutputRoutes g) k s [t] = Some (Inr w)" by auto
  with k rv use_start(3) show ?thesis by simp
next
  case (fresh k sd rt)
  then have rv: "rv = (if p then s else t)" by (simp add: rv_def)
  from InternalDijkstra_caches [OF fresh(3)]
  have k: "map_of (m_DijkstraStartVertices g1) rv = Some k"
    by (simp add: rv)
  have other: "(if p then t else s) = (if rv = t then s else t)"
    by (auto simp: rv)
  from unwind_walk [of g1 p s t k d r g1] k fresh(5)
  obtain w where "walk_parents (m_DijkstraOutputRoutes g1) k rv [if p then t else s] = Some (Inr w)"
    by (auto simp: rv)
  then have "walk_parents (m_DijkstraOutputRoutes g1) k rv [if rv = t then s else t] = Some (Inr w)"
    by (simp only: other)
  with k show ?thesis by blast
qed

text \<open>
  The distance a returning query gives is the distance of its two vertices, in one
  direction or the other. A vertex without a distance has no parent, and the walk to the
  root would leave the vector there; so a query that returns never gives the mark \<open>- 1\<close>
  of a missing distance.
\<close>

lemma answer_is_distance:
  assumes wf: "well_formed g" and adj: "adjacency_ok g" and ex: "exact_sums g"
    and ok: "cache_ok g" and t: "trees_ok g"
    and run: "InternalShortestDistance g s e p = Some (Inr (d, r, g1))"
  shows "s < m_Order g \<and> e < m_Order g \<and> (is_distance g s e d \<or> is_distance g e s d)"
proof -
  let ?n = "m_Order g"
  define rv where "rv = (if cached g e then e else if cached g s then s else if p then s else e)"
  define x where "x = (if rv = e then s else e)"
  have sg: "same_graph g g1"
    by (rule InternalShortestDistance_same_graph [OF run])
  have ok1: "cache_ok g1"
    by (rule InternalShortestDistance_cache_ok [OF wf ok run])
  have t1: "trees_ok g1"
    by (rule InternalShortestDistance_trees_ok [OF wf adj ex ok t run])
  from answer_source(1) [OF run, folded rv_def, folded x_def]
  obtain k where k: "map_of (m_DijkstraStartVertices g1) rv = Some k"
    and rd: "vget2 (m_DijkstraShortestDistances g1) k x = Inr d"
    by blast
  from answer_walk [OF run, folded rv_def, folded x_def] k
  obtain w where w: "walk_parents (m_DijkstraOutputRoutes g1) k rv [x] = Some (Inr w)"
    by auto
  from ok1 k have c: "rv < ?n" "k < length (m_DijkstraShortestDistances g1)"
    "length (m_DijkstraShortestDistances g1 ! k) = ?n"
    "m_DijkstraShortestDistances g1 ! k ! rv = m_DistanceMatrix g ! rv ! rv"
    using sg by (simp_all add: cache_ok_def same_graph_def)
  from rd c(3) have x: "x < ?n" and d: "d = m_DijkstraShortestDistances g1 ! k ! x"
    by (simp_all add: vget2_Inr_iff)
  from t1 k have kr: "k < length (m_DijkstraOutputRoutes g1)"
    and tr: "tree_ok g rv (m_DijkstraShortestDistances g1 ! k) (m_DijkstraOutputRoutes g1 ! k)"
    unfolding trees_ok_def tree_ok_same_graph [OF sg, symmetric] by blast+
  have pair: "(rv = s \<and> x = e) \<or> (rv = e \<and> x = s)"
    by (auto simp: rv_def x_def)
  have "is_distance g rv x d"
  proof (cases "x = rv")
    case True
    with d c(4) show ?thesis by (simp add: is_distance_def)
  next
    case False
    from tr have lr: "length (m_DijkstraOutputRoutes g1 ! k) = ?n"
      by (simp add: tree_ok_def)
    have present: "d \<noteq> - 1"
    proof
      assume "d = - 1"
      with tr x False d have "m_DijkstraOutputRoutes g1 ! k ! x = UINT_MAX"
        unfolding tree_ok_def by blast
      from walk_parents_no_parent [OF kr lr _ x c(1) False this] wf w show False
        by (simp add: well_formed_def)
    qed
    from tr x False have
      "d \<noteq> - 1 \<longrightarrow> (\<exists>q. is_rpath g q \<and> hd q = x \<and> last q = rv \<and> rpath_weight g q = d)"
      "\<forall>q. is_rpath g q \<and> hd q = x \<and> last q = rv \<longrightarrow> d \<le> rpath_weight g q"
      unfolding tree_ok_def d by blast+
    with present False show ?thesis
      by (simp add: is_distance_def)
  qed
  with pair c(1) x show ?thesis by auto
qed

subsection \<open>Paths backwards\<close>

lemma is_rpath_snoc:
  "is_rpath g p \<Longrightarrow> w < m_Order g \<Longrightarrow> m_AdjacencyMatrix g ! w ! last p \<Longrightarrow> is_rpath g (p @ [w])"
  by (induction p rule: induct_list012) auto

lemma rpath_weight_snoc:
  "p \<noteq> [] \<Longrightarrow> rpath_weight g (p @ [w]) = rpath_weight g p + m_DistanceMatrix g ! w ! last p"
  by (induction p rule: induct_list012) auto

text \<open>
  In a graph with a symmetric matrix a path can be walked backwards, at the same weight.
\<close>

lemma rpath_rev:
  assumes adj: "adjacency_ok g" and sym: "symmetric_weights g" and p: "is_rpath g p"
  shows "is_rpath g (rev p) \<and> rpath_weight g (rev p) = rpath_weight g p"
  using p
proof (induction p rule: induct_list012)
  case (3 v u q)
  let ?q = "rev (u # q)"
  from 3(3) have v: "v < m_Order g" and e: "m_AdjacencyMatrix g ! u ! v" and uq: "is_rpath g (u # q)"
    by simp_all
  from is_rpath_hd [OF uq] have u: "u < m_Order g" by simp
  from 3(2) [OF uq] have IH: "is_rpath g ?q" "rpath_weight g ?q = rpath_weight g (u # q)"
    by simp_all
  have lq: "last ?q = u" by simp
  have m: "m_DistanceMatrix g ! v ! u = m_DistanceMatrix g ! u ! v"
    using sym u v unfolding symmetric_weights_def by blast
  from adjacency_okD [OF adj u v e] m have "0 \<le> m_DistanceMatrix g ! v ! u" "v \<noteq> u"
    by auto
  with adj u v have e': "m_AdjacencyMatrix g ! v ! last ?q"
    unfolding lq adjacency_ok_def by blast
  have ne: "?q \<noteq> []" by simp
  have "rev (v # u # q) = ?q @ [v]" by simp
  with is_rpath_snoc [OF IH(1) v e'] rpath_weight_snoc [OF ne, of g v] IH(2) m lq
  show ?case by simp
qed simp_all

lemma is_distance_sym:
  assumes adj: "adjacency_ok g" and sym: "symmetric_weights g" and d: "is_distance g a b d"
  shows "is_distance g b a d"
proof (cases "a = b")
  case True
  with d show ?thesis by simp
next
  case False
  from d False obtain q where q: "is_rpath g q" "hd q = b" "last q = a" "rpath_weight g q = d"
    and least: "\<And>q. is_rpath g q \<Longrightarrow> hd q = b \<Longrightarrow> last q = a \<Longrightarrow> d \<le> rpath_weight g q"
    unfolding is_distance_def by auto
  have ends: "hd (rev p) = last p \<and> last (rev p) = hd p" if "is_rpath g p" for p
    using is_rpath_nonempty [OF that] by (simp add: hd_rev last_rev)
  have "is_rpath g (rev q) \<and> hd (rev q) = a \<and> last (rev q) = b \<and> rpath_weight g (rev q) = d"
    using rpath_rev [OF adj sym q(1)] ends [OF q(1)] q by simp
  moreover have "d \<le> rpath_weight g p" if p: "is_rpath g p" "hd p = a" "last p = b" for p
    using least [of "rev p"] rpath_rev [OF adj sym p(1)] ends [OF p(1)] p by simp
  ultimately show ?thesis
    using False unfolding is_distance_def by (auto simp del: rev_rev_ident)
qed

lemma is_distance_unique:
  assumes "is_distance g a b d" "is_distance g a b d'"
  shows "d = d'"
proof (cases "a = b")
  case True
  with assms show ?thesis by (simp add: is_distance_def)
next
  case False
  with assms obtain q q' where "is_rpath g q" "hd q = b" "last q = a" "rpath_weight g q = d"
    "is_rpath g q'" "hd q' = b" "last q' = a" "rpath_weight g q' = d'"
    and "\<And>p. is_rpath g p \<Longrightarrow> hd p = b \<Longrightarrow> last p = a \<Longrightarrow> d \<le> rpath_weight g p"
    and "\<And>p. is_rpath g p \<Longrightarrow> hd p = b \<Longrightarrow> last p = a \<Longrightarrow> d' \<le> rpath_weight g p"
    unfolding is_distance_def by auto
  then have "d \<le> d'" "d' \<le> d" by blast+
  then show ?thesis by simp
qed

subsection \<open>Integer weights\<close>

lemma integer_path_weight:
  assumes int: "\<forall>i<m_Order g. \<forall>j<m_Order g. m_AdjacencyMatrix g ! i ! j \<longrightarrow>
      (\<exists>k::nat. m_DistanceMatrix g ! i ! j = real k \<and> k \<le> W)"
    and p: "is_rpath g p"
  shows "\<exists>k::nat. rpath_weight g p = real k \<and> k \<le> (length p - 1) * W"
  using p
proof (induction p rule: induct_list012)
  case (3 v u q)
  from 3(3) have v: "v < m_Order g" and e: "m_AdjacencyMatrix g ! u ! v" and uq: "is_rpath g (u # q)"
    by simp_all
  from is_rpath_hd [OF uq] have u: "u < m_Order g" by simp
  from 3(2) [OF uq] obtain k where k: "rpath_weight g (u # q) = real k" "k \<le> length q * W"
    by auto
  from int u v e obtain j where j: "m_DistanceMatrix g ! u ! v = real j" "j \<le> W"
    by blast
  have "rpath_weight g (v # u # q) = real (k + j)"
    using k(1) j(1) by simp
  moreover have "k + j \<le> (length (v # u # q) - 1) * W"
    using k(2) j(2) by simp
  ultimately show ?case by blast
qed simp_all

text \<open>
  Integer weights: when every edge weight is a natural number of at most \<open>W\<close> and
  \<open>m_Order\<close> times \<open>W\<close> is below \<open>2 ^ 53\<close>, the weight of a path without repetition is an
  integer below \<open>2 ^ 53\<close>, hence a double.
\<close>

lemma integer_weights_exact:
  assumes int: "\<forall>i<m_Order g. \<forall>j<m_Order g. m_AdjacencyMatrix g ! i ! j \<longrightarrow>
      (\<exists>k::nat. m_DistanceMatrix g ! i ! j = real k \<and> k \<le> W)"
    and small: "m_Order g * W < 2 ^ 53"
  shows "exact_sums g"
  unfolding exact_sums_def
proof (intro allI impI)
  fix p assume p: "is_rpath g p \<and> distinct p"
  from integer_path_weight [OF int, of p] p
  obtain k where k: "rpath_weight g p = real k" "k \<le> (length p - 1) * W"
    by blast
  have "length p = card (set p)"
    using p by (simp add: distinct_card)
  also have "\<dots> \<le> card {..<m_Order g}"
    using is_rpath_bounds [of g p] p by (intro card_mono) auto
  finally have "length p \<le> m_Order g" by simp
  then have "(length p - 1) * W \<le> m_Order g * W"
    by (intro mult_right_mono) auto
  with k(2) small have "k < 2 ^ 53" by linarith
  then have "\<bar>int k\<bar> < 2 ^ 53" by simp
  from round53_of_int [OF this] show "round53 (rpath_weight g p) = rpath_weight g p"
    by (simp add: k(1))
qed

subsection \<open>The two directions agree\<close>

lemma path_query_40_10_both:
  "ShortestDistance path_graph_40_10 40 10 False
     = Some (Inr (6, [40, 30, 20, 10], path_graph_40_10))"
  by (simp add: query_defs path_labels_in_both path_cached cached_def)
     (simp add: query_defs eval_simps path_graph_def path_graph_40_10_def)

lemma path_reachable_both: "reachable path_graph path_graph_40_10"
  using reachable_step [OF reachable_step [OF reachable_refl],
      of path_graph 10 40 False 6 "[10, 20, 30, 40]" path_graph_40
         10 10 False 0 "[10]" path_graph_40_10]
    path_query_10_40 path_query_10_10_after
  by (simp add: ShortestDistance_default_def)

lemma below_4: "i < 4 \<Longrightarrow> i = 0 \<or> i = 1 \<or> i = 2 \<or> i = (3::nat)"
  by linarith

lemma path_symmetric:
  "\<forall>i<length path_matrix. \<forall>j<length path_matrix. path_matrix ! i ! j = path_matrix ! j ! i"
proof (intro allI impI)
  fix i j assume "i < length path_matrix" "j < length path_matrix"
  then have "i < 4" "j < 4" by (simp_all add: path_matrix_def)
  from below_4 [OF this(1)] below_4 [OF this(2)]
  show "path_matrix ! i ! j = path_matrix ! j ! i"
    by (auto simp: path_matrix_def)
qed

lemma path_exact: "exact_sums path_graph"
proof (rule integer_weights_exact [of _ 3])
  show "m_Order path_graph * 3 < 2 ^ 53"
    by (simp add: path_graph_def)
  show "\<forall>i<m_Order path_graph. \<forall>j<m_Order path_graph. m_AdjacencyMatrix path_graph ! i ! j \<longrightarrow>
      (\<exists>k::nat. m_DistanceMatrix path_graph ! i ! j = real k \<and> k \<le> 3)"
  proof (intro allI impI)
    fix i j assume "i < m_Order path_graph" "j < m_Order path_graph"
      and e: "m_AdjacencyMatrix path_graph ! i ! j"
    then have "i < 4" "j < 4" by (simp_all add: path_graph_def)
    from below_4 [OF this(1)] below_4 [OF this(2)] e
    have "m_DistanceMatrix path_graph ! i ! j = real 1
        \<or> m_DistanceMatrix path_graph ! i ! j = real 2
        \<or> m_DistanceMatrix path_graph ! i ! j = real 3"
      by (auto simp: path_graph_def path_matrix_def)
    then show "\<exists>k::nat. m_DistanceMatrix path_graph ! i ! j = real k \<and> k \<le> 3"
      by (elim disjE) (rule exI [of _ 1], simp, rule exI [of _ 2], simp, rule exI [of _ 3], simp)
  qed
qed

lemma ExternalToInternal_same_graph:
  "same_graph g g' \<Longrightarrow> ExternalToInternal g' v = ExternalToInternal g v"
  by (simp add: ExternalToInternal_def same_graph_def)

text \<open>
  Claim C8, amended. Let the graph be built from a symmetric matrix, and let no sum along
  a path without a repeated vertex be rounded (\<open>exact_sums\<close>; by \<open>integer_weights_exact\<close>
  this holds when the weights are integers and \<open>m_Order\<close> times the largest weight stays
  below \<open>2 ^ 53\<close>). Take any two states of the cache that calls of the public function
  lead to. If the query from \<open>a\<close> to \<open>b\<close> returns in the one and the query from \<open>b\<close> to
  \<open>a\<close> returns in the other, the two distances are equal, whichever trees the two states
  hold and whatever the two preference flags are.
\<close>

theorem C8_symmetric_matrix_equal_distances:
  assumes new: "CGraph_new dm labels = Inr g0"
    and sym: "\<forall>i<length dm. \<forall>j<length dm. dm ! i ! j = dm ! j ! i"
    and ex: "exact_sums g0"
    and r1: "reachable g0 g1" and r2: "reachable g0 g2"
    and q1: "ShortestDistance g1 a b p1 = Some (Inr (d1, route1, g1'))"
    and q2: "ShortestDistance g2 b a p2 = Some (Inr (d2, route2, g2'))"
  shows "d1 = d2"
proof -
  note inv0 = CGraph_new_invariants [OF new]
  note tr0 = CGraph_new_trees [OF new]
  have sym0: "symmetric_weights g0"
    using sym by (simp add: symmetric_weights_def tr0(3,4))
  have state: "same_graph g0 g \<and> well_formed g \<and> adjacency_ok g \<and> exact_sums g
      \<and> cache_ok g \<and> trees_ok g" if "reachable g0 g" for g
  proof -
    from reachable_invariants [OF that inv0] have sg: "same_graph g0 g" and ok: "cache_ok g"
      by simp_all
    from well_formed_same_graph [OF sg inv0(1)] adjacency_ok_same_graph [OF sg]
      exact_sums_same_graph [OF sg] tr0(1) ex ok sg
      reachable_trees_ok [OF that inv0 tr0(1) ex tr0(2)]
    show ?thesis by simp
  qed
  have answer: "is_distance g0 s e d"
    if "reachable g0 g" "InternalShortestDistance g s e p = Some (Inr (d, r, g'))"
    for g s e p d r g'
  proof -
    note st = state [OF that(1)]
    from st have sg: "same_graph g0 g" by simp
    from answer_is_distance [OF _ _ _ _ _ that(2)] st
    have "is_distance g s e d \<or> is_distance g e s d" by blast
    then have "is_distance g0 s e d \<or> is_distance g0 e s d"
      by (simp add: is_distance_same_graph [OF sg])
    with is_distance_sym [OF tr0(1) sym0] show ?thesis by blast
  qed
  from q1 obtain s1 e1 w1 where i1: "ExternalToInternal g1 a = Inr s1"
    "ExternalToInternal g1 b = Inr e1"
    "InternalShortestDistance g1 s1 e1 p1 = Some (Inr (d1, w1, g1'))"
    by (rule ShortestDistance_Inr)
  from q2 obtain s2 e2 w2 where i2: "ExternalToInternal g2 b = Inr s2"
    "ExternalToInternal g2 a = Inr e2"
    "InternalShortestDistance g2 s2 e2 p2 = Some (Inr (d2, w2, g2'))"
    by (rule ShortestDistance_Inr)
  from state [OF r1] state [OF r2] have sg: "same_graph g0 g1" "same_graph g0 g2"
    by simp_all
  from i1(1,2) i2(1,2) have same: "s2 = e1" "e2 = s1"
    by (simp_all add: ExternalToInternal_same_graph [OF sg(1)]
        ExternalToInternal_same_graph [OF sg(2)])
  from answer [OF r1 i1(3)] have "is_distance g0 s1 e1 d1" .
  moreover from answer [OF r2 i2(3)] is_distance_sym [OF tr0(1) sym0]
  have "is_distance g0 s1 e1 d2"
    unfolding same by blast
  ultimately show ?thesis
    by (rule is_distance_unique)
qed

text \<open>
  Claim C8, witness: the path graph of claim C1 with the trees of 40 and of 10 in its
  cache. The query from 10 to 40 reads the tree of 40, the query from 40 to 10 reads the
  tree of 10, and both return the distance 6.
\<close>

theorem C8_witness_path_graph:
  "\<exists>d. ShortestDistance path_graph_40_10 10 40 False
           = Some (Inr (d, [10, 20, 30, 40], path_graph_40_10))
       \<and> ShortestDistance path_graph_40_10 40 10 False
           = Some (Inr (d, [40, 30, 20, 10], path_graph_40_10))"
  using C8_symmetric_matrix_equal_distances [OF path_new path_symmetric path_exact
      path_reachable_both path_reachable_both path_query_10_40_both path_query_40_10_both]
    path_query_10_40_both path_query_40_10_both
  by blast

end
